theory Spec2Isabelle
  imports Main "HOL-Library.Word" "HOL-Library.Signed_Division"
begin

unbundle bit_operations_syntax

section \<open>Machine words\<close>

text \<open>
  \<open>word_t\<close> is \<open>uint32_t\<close> (alu.h); the flags and the bytes of the RAM are
  \<open>uint8_t\<close>. The C types \<open>int\<close>, \<open>long\<close> and \<open>size_t\<close> are modelled as
  \<open>int\<close>, \<open>int\<close> and \<open>nat\<close>: the checks of the code are the only places where
  their range matters, and they are written out where the code has them. Signed overflow
  of \<open>long\<close> (in the tree-walking evaluator) and of the register counter of the code
  generator is undefined behaviour in C and lies outside this model.
\<close>

type_synonym u8 = "8 word"
type_synonym word_t = "32 word"

section \<open>ALU (alu.c)\<close>

record ALUFlags =
  Z :: u8
  N :: u8
  C :: u8
  V :: u8

definition WORD_BITS :: nat where
  "WORD_BITS = 32"

text \<open>
  The body of the loop of \<open>ripple_add\<close> at bit \<open>i\<close>: it reads one bit of each
  operand, and returns the new \<open>result\<close> and the new \<open>carry\<close>.
\<close>

definition ripple_bit :: "word_t \<Rightarrow> word_t \<Rightarrow> nat \<Rightarrow> word_t \<Rightarrow> word_t \<Rightarrow> word_t \<times> word_t" where
  "ripple_bit a b i result carry =
     (let a_bit = drop_bit i a AND 1;
          b_bit = drop_bit i b AND 1;
          sum_bit = a_bit XOR b_bit XOR carry;
          carry_out = (a_bit AND b_bit) OR (carry AND (a_bit XOR b_bit))
      in (result OR push_bit i sum_bit, carry_out))"

text \<open>The loop \<open>for (i = 0; i < WORD_BITS; i++)\<close>, from the state before iteration \<open>i\<close>.\<close>

function ripple_loop :: "word_t \<Rightarrow> word_t \<Rightarrow> nat \<Rightarrow> word_t \<Rightarrow> word_t \<Rightarrow> word_t \<times> word_t" where
  "ripple_loop a b i result carry =
     (if i < WORD_BITS
      then (case ripple_bit a b i result carry of
              (result', carry') \<Rightarrow> ripple_loop a b (Suc i) result' carry')
      else (result, carry))"
  by pat_completeness auto
termination
  by (relation "measure (\<lambda>(a, b, i, result, carry). WORD_BITS - i)") auto

declare ripple_loop.simps [simp del]

text \<open>\<open>ripple_add\<close> sets Z, N and C of \<open>*f\<close> and leaves V as it is.\<close>

definition ripple_add :: "word_t \<Rightarrow> word_t \<Rightarrow> word_t \<Rightarrow> ALUFlags \<Rightarrow> word_t \<times> ALUFlags" where
  "ripple_add a b carry_in f =
     (case ripple_loop a b 0 0 (carry_in AND 1) of
        (result, carry) \<Rightarrow>
          (result,
           f\<lparr>C := ucast (carry AND 1),
             Z := (if result = 0 then 1 else 0),
             N := ucast (drop_bit 31 result AND 1)\<rparr>))"

definition bool_u8 :: "bool \<Rightarrow> u8" where
  "bool_u8 p = (if p then 1 else 0)"

definition sign_bit :: "word_t \<Rightarrow> u8" where
  "sign_bit w = ucast (drop_bit 31 w AND 1)"

definition alu_add :: "word_t \<Rightarrow> word_t \<Rightarrow> ALUFlags \<Rightarrow> word_t \<times> ALUFlags" where
  "alu_add a b f =
     (case ripple_add a b 0 f of
        (result, f1) \<Rightarrow>
          (let sign_a = sign_bit a; sign_b = sign_bit b; sign_res = sign_bit result
           in (result, f1\<lparr>V := bool_u8 (sign_a = sign_b \<and> sign_res \<noteq> sign_a)\<rparr>)))"

definition alu_sub :: "word_t \<Rightarrow> word_t \<Rightarrow> ALUFlags \<Rightarrow> word_t \<times> ALUFlags" where
  "alu_sub a b f =
     (case ripple_add a (NOT b) 1 f of
        (result, f1) \<Rightarrow>
          (let sign_a = sign_bit a; sign_b = sign_bit b; sign_res = sign_bit result
           in (result, f1\<lparr>V := bool_u8 (sign_a \<noteq> sign_b \<and> sign_res \<noteq> sign_a)\<rparr>)))"

text \<open>
  \<open>alu_mul\<close> keeps the low 32 bits of the 64-bit product, which is the product of the
  32-bit words. \<open>alu_div\<close> is the unsigned quotient; its caller checks \<open>b \<noteq> 0\<close>.
\<close>

definition alu_mul :: "word_t \<Rightarrow> word_t \<Rightarrow> ALUFlags \<Rightarrow> word_t \<times> ALUFlags" where
  "alu_mul a b f =
     (let result = (ucast ((ucast a :: 64 word) * (ucast b :: 64 word)) :: word_t)
      in (result,
          f\<lparr>Z := (if result = 0 then 1 else 0), N := sign_bit result, C := 0, V := 0\<rparr>))"

definition alu_div :: "word_t \<Rightarrow> word_t \<Rightarrow> ALUFlags \<Rightarrow> word_t \<times> ALUFlags" where
  "alu_div a b f =
     (let result = a div b
      in (result,
          f\<lparr>Z := (if result = 0 then 1 else 0), N := sign_bit result, C := 0, V := 0\<rparr>))"

section \<open>Memory (memory.c)\<close>

definition MEM_SIZE :: nat where
  "MEM_SIZE = 64 * 1024"

definition MEM_WORD_SIZE :: nat where
  "MEM_WORD_SIZE = 4"

text \<open>
  \<open>Memory.data\<close> is an array of \<open>MEM_SIZE\<close> bytes, indexed here by \<open>nat\<close>; every
  index the code uses has passed \<open>check_access\<close> and lies below \<open>MEM_SIZE\<close>.
\<close>

record Memory =
  data :: "nat \<Rightarrow> u8"

definition mem_init :: "Memory \<Rightarrow> Memory" where
  "mem_init mem = mem\<lparr>data := (\<lambda>_. 0)\<rparr>"

text \<open>
  The two failures of \<open>check_access\<close> and the NULL check of its callers all return
  \<open>-1\<close>; they differ in the return statement taken and in the message printed.
\<close>

datatype mem_error = AlignmentError | BoundsError | NullMemory

definition check_access :: "word_t \<Rightarrow> mem_error option" where
  "check_access addr =
     (if unat addr mod MEM_WORD_SIZE \<noteq> 0 then Some AlignmentError
      else if unat addr > MEM_SIZE - MEM_WORD_SIZE then Some BoundsError
      else None)"

definition mem_read_word :: "Memory option \<Rightarrow> word_t \<Rightarrow> mem_error + word_t" where
  "mem_read_word mem addr =
     (case mem of
        None \<Rightarrow> Inl NullMemory
      | Some m \<Rightarrow>
          (case check_access addr of
             Some e \<Rightarrow> Inl e
           | None \<Rightarrow>
               Inr ((ucast (data m (unat addr)) :: word_t)
                    OR push_bit 8 (ucast (data m (unat (addr + 1))) :: word_t)
                    OR push_bit 16 (ucast (data m (unat (addr + 2))) :: word_t)
                    OR push_bit 24 (ucast (data m (unat (addr + 3))) :: word_t))))"

text \<open>
  \<open>mem_write_word\<close> returns its status together with the memory its caller holds
  afterwards: on a failure the function returns before the first store.
\<close>

definition mem_write_word :: "Memory option \<Rightarrow> word_t \<Rightarrow> word_t \<Rightarrow> mem_error option \<times> Memory option" where
  "mem_write_word mem addr val =
     (case mem of
        None \<Rightarrow> (Some NullMemory, mem)
      | Some m \<Rightarrow>
          (case check_access addr of
             Some e \<Rightarrow> (Some e, mem)
           | None \<Rightarrow>
               (None,
                Some (m\<lparr>data := (data m)
                  (unat addr := ucast (val AND 0xFF),
                   unat (addr + 1) := ucast (drop_bit 8 val AND 0xFF),
                   unat (addr + 2) := ucast (drop_bit 16 val AND 0xFF),
                   unat (addr + 3) := ucast (drop_bit 24 val AND 0xFF))\<rparr>))))"

section \<open>IR (ir.h, ir.c)\<close>

datatype IROpcode =
  IR_LOAD_CONST | IR_ADD | IR_SUB | IR_MUL | IR_DIV
  | IR_CMP | IR_JMP | IR_JZ | IR_JNZ
  | IR_LOAD | IR_STORE

record IRInstr =
  op :: IROpcode
  dst :: int
  src :: int
  imm :: int
  target :: int
  addr :: int

text \<open>
  \<open>IRProgram\<close> is a growable buffer with \<open>count\<close> valid entries: a list, whose length
  is \<open>count\<close>. \<open>ir_program_append\<close> is its only mutator.
\<close>

type_synonym IRProgram = "IRInstr list"

definition ir_program_init :: IRProgram where
  "ir_program_init = []"

definition ir_program_append :: "IRProgram \<Rightarrow> IRInstr \<Rightarrow> IRProgram" where
  "ir_program_append p instr = p @ [instr]"

section \<open>CPU (cpu.h, cpu.c)\<close>

definition CPU_MAX_REGS :: int where
  "CPU_MAX_REGS = 32"

definition CPU_MAX_STEPS :: nat where
  "CPU_MAX_STEPS = 1000000"

record CPU =
  regs :: "word_t list"
  flags :: ALUFlags
  pc :: nat
  mem :: "Memory option"

text \<open>
  Every failure of \<open>cpu_execute\<close> returns \<open>-1\<close>; the errors are told apart by the
  return statement taken (and the message printed there). The opcode is one of the
  enumerators of \<open>IROpcode\<close>, so the \<open>default\<close> branch of the switch is not reached.
\<close>

datatype cpu_error =
  EmptyProgram | InfiniteLoopGuard | RegisterOutOfRange | DivisionByZero
  | BranchOutOfRange | MemoryNotAttached | MemoryError mem_error

definition check_reg :: "int \<Rightarrow> int" where
  "check_reg r = (if r < 0 \<or> r \<ge> CPU_MAX_REGS then - 1 else 0)"

definition check_target :: "int \<Rightarrow> nat \<Rightarrow> int" where
  "check_target tgt prog_count = (if tgt < 0 \<or> nat tgt > prog_count then - 1 else 0)"

text \<open>
  The cases \<open>IR_ADD\<close>, \<open>IR_SUB\<close> and \<open>IR_MUL\<close> of the switch differ in the ALU
  operation only. The result is the CPU, \<open>last_dst\<close> and \<open>jumped\<close> after the case.
\<close>

definition exec_alu ::
  "(word_t \<Rightarrow> word_t \<Rightarrow> ALUFlags \<Rightarrow> word_t \<times> ALUFlags) \<Rightarrow> IRInstr \<Rightarrow> CPU
     \<Rightarrow> cpu_error + CPU \<times> int \<times> bool" where
  "exec_alu alu_op i c =
     (if check_reg (dst i) \<noteq> 0 then Inl RegisterOutOfRange
      else if check_reg (src i) \<noteq> 0 then Inl RegisterOutOfRange
      else (case alu_op (regs c ! nat (dst i)) (regs c ! nat (src i)) (flags c) of
              (res, f) \<Rightarrow>
                Inr (c\<lparr>regs := (regs c)[nat (dst i) := res], flags := f\<rparr>, dst i, False)))"

text \<open>
  The switch of the execution loop on the instruction \<open>i\<close>, in a program of
  \<open>prog_count\<close> instructions.
\<close>

definition dispatch ::
  "IRInstr \<Rightarrow> nat \<Rightarrow> CPU \<Rightarrow> int \<Rightarrow> cpu_error + CPU \<times> int \<times> bool" where
  "dispatch i prog_count c ld =
     (case op i of
        IR_LOAD_CONST \<Rightarrow>
          if check_reg (dst i) \<noteq> 0 then Inl RegisterOutOfRange
          else Inr (c\<lparr>regs := (regs c)[nat (dst i) := word_of_int (imm i)]\<rparr>, dst i, False)
      | IR_ADD \<Rightarrow> exec_alu alu_add i c
      | IR_SUB \<Rightarrow> exec_alu alu_sub i c
      | IR_MUL \<Rightarrow> exec_alu alu_mul i c
      | IR_DIV \<Rightarrow>
          if check_reg (dst i) \<noteq> 0 then Inl RegisterOutOfRange
          else if check_reg (src i) \<noteq> 0 then Inl RegisterOutOfRange
          else if regs c ! nat (src i) = 0 then Inl DivisionByZero
          else exec_alu alu_div i c
      | IR_CMP \<Rightarrow>
          if check_reg (dst i) \<noteq> 0 then Inl RegisterOutOfRange
          else if check_reg (src i) \<noteq> 0 then Inl RegisterOutOfRange
          else (case alu_sub (regs c ! nat (dst i)) (regs c ! nat (src i)) (flags c) of
                  (res, f) \<Rightarrow> Inr (c\<lparr>flags := f\<rparr>, ld, False))
      | IR_JMP \<Rightarrow>
          if check_target (target i) prog_count \<noteq> 0 then Inl BranchOutOfRange
          else Inr (c\<lparr>pc := nat (target i)\<rparr>, ld, True)
      | IR_JZ \<Rightarrow>
          if Z (flags c) \<noteq> 0
          then (if check_target (target i) prog_count \<noteq> 0 then Inl BranchOutOfRange
                else Inr (c\<lparr>pc := nat (target i)\<rparr>, ld, True))
          else Inr (c, ld, False)
      | IR_JNZ \<Rightarrow>
          if Z (flags c) = 0
          then (if check_target (target i) prog_count \<noteq> 0 then Inl BranchOutOfRange
                else Inr (c\<lparr>pc := nat (target i)\<rparr>, ld, True))
          else Inr (c, ld, False)
      | IR_LOAD \<Rightarrow>
          if check_reg (dst i) \<noteq> 0 then Inl RegisterOutOfRange
          else if check_reg (addr i) \<noteq> 0 then Inl RegisterOutOfRange
          else if mem c = None then Inl MemoryNotAttached
          else (case mem_read_word (mem c) (regs c ! nat (addr i)) of
                  Inl e \<Rightarrow> Inl (MemoryError e)
                | Inr val \<Rightarrow> Inr (c\<lparr>regs := (regs c)[nat (dst i) := val]\<rparr>, dst i, False))
      | IR_STORE \<Rightarrow>
          if check_reg (src i) \<noteq> 0 then Inl RegisterOutOfRange
          else if check_reg (addr i) \<noteq> 0 then Inl RegisterOutOfRange
          else if mem c = None then Inl MemoryNotAttached
          else (case mem_write_word (mem c) (regs c ! nat (addr i)) (regs c ! nat (src i)) of
                  (Some e, m) \<Rightarrow> Inl (MemoryError e)
                | (None, m) \<Rightarrow> Inr (c\<lparr>mem := m\<rparr>, ld, False)))"

text \<open>
  The state of \<open>cpu_execute\<close> between two iterations of its loop: the CPU and the
  locals \<open>last_dst\<close> and \<open>step_count\<close>. A run ends with \<open>Inr\<close> of the state at the
  exit of the loop (\<open>return 0\<close>), or with \<open>Inl\<close> of the error and the state at the
  failing \<open>return -1\<close>.
\<close>

record run_state =
  cpu :: CPU
  last_dst :: int
  step_count :: nat

function cpu_loop :: "IRProgram \<Rightarrow> run_state \<Rightarrow> cpu_error \<times> run_state + run_state" where
  "cpu_loop p st =
     (if pc (cpu st) < length p
      then (let st1 = st\<lparr>step_count := step_count st + 1\<rparr>
            in if step_count st + 1 > CPU_MAX_STEPS then Inl (InfiniteLoopGuard, st1)
               else (case dispatch (p ! pc (cpu st)) (length p) (cpu st) (last_dst st) of
                       Inl e \<Rightarrow> Inl (e, st1)
                     | Inr (c, ld, jumped) \<Rightarrow>
                         cpu_loop p
                           \<lparr>cpu = (if jumped then c else c\<lparr>pc := pc c + 1\<rparr>),
                            last_dst = ld,
                            step_count = step_count st + 1\<rparr>))
      else Inr st)"
  by pat_completeness auto
termination
  by (relation "measure (\<lambda>(p, st). Suc CPU_MAX_STEPS - step_count st)") auto

declare cpu_loop.simps [simp del]

definition cpu_init :: "Memory option \<Rightarrow> run_state" where
  "cpu_init m =
     \<lparr>cpu = \<lparr>regs = replicate (nat CPU_MAX_REGS) 0,
             flags = \<lparr>Z = 0, N = 0, C = 0, V = 0\<rparr>,
             pc = 0,
             mem = m\<rparr>,
      last_dst = 0,
      step_count = 0\<rparr>"

definition cpu_execute :: "IRProgram \<Rightarrow> Memory option \<Rightarrow> cpu_error \<times> run_state + run_state" where
  "cpu_execute p m =
     (if length p = 0 then Inl (EmptyProgram, cpu_init m) else cpu_loop p (cpu_init m))"

text \<open>The word of the last register written, and the value stored in \<open>*out_result\<close>.\<close>

definition final_reg :: "run_state \<Rightarrow> word_t" where
  "final_reg st = regs (cpu st) ! nat (last_dst st)"

definition out_result :: "run_state \<Rightarrow> int" where
  "out_result st = sint (final_reg st)"

text \<open>The status of a run: \<open>None\<close> for \<open>return 0\<close>, the error for \<open>return -1\<close>.\<close>

definition cpu_status :: "cpu_error \<times> run_state + run_state \<Rightarrow> cpu_error option" where
  "cpu_status r = (case r of Inl (e, st) \<Rightarrow> Some e | Inr st \<Rightarrow> None)"

section \<open>Expression trees (ast.h) and the reference evaluator (eval.c)\<close>

datatype BinaryOp = OP_ADD | OP_SUB | OP_MUL | OP_DIV

datatype Node =
  NODE_NUMBER int
  | NODE_BINARY_OP BinaryOp Node Node

datatype EvalStatus = EVAL_ERR_DIV_ZERO | EVAL_ERR_OVERFLOW | EVAL_ERR_INTERNAL

text \<open>
  \<open>eval\<close> returns \<open>Inr\<close> of the value with the status \<open>EVAL_OK\<close>, and \<open>Inl\<close> of any
  other status. C's \<open>/\<close> on \<open>long\<close> truncates towards zero: \<open>sdiv\<close>. The arithmetic is
  that of \<open>long\<close> as long as no result leaves its range, which the code does not check
  (its comments leave the check to a later level). A \<open>Node\<close> is never NULL and has one of
  the two node types and one of the four operators, so \<open>EVAL_ERR_INTERNAL\<close> is not
  returned.
\<close>

fun eval :: "Node \<Rightarrow> EvalStatus + int" where
  "eval (NODE_NUMBER val) = Inr val"
| "eval (NODE_BINARY_OP bop left right) =
     (case eval left of
        Inl s \<Rightarrow> Inl s
      | Inr lhs \<Rightarrow>
          (case eval right of
             Inl s \<Rightarrow> Inl s
           | Inr rhs \<Rightarrow>
               (case bop of
                  OP_ADD \<Rightarrow> Inr (lhs + rhs)
                | OP_SUB \<Rightarrow> Inr (lhs - rhs)
                | OP_MUL \<Rightarrow> Inr (lhs * rhs)
                | OP_DIV \<Rightarrow> if rhs = 0 then Inl EVAL_ERR_DIV_ZERO else Inr (lhs sdiv rhs))))"

section \<open>Code generator (codegen.h, codegen.c)\<close>

record Codegen =
  prog :: IRProgram
  next_reg :: int

definition codegen_init :: "IRProgram \<Rightarrow> Codegen" where
  "codegen_init p = \<lparr>prog = p, next_reg = 0\<rparr>"

definition alloc_reg :: "Codegen \<Rightarrow> int \<times> Codegen" where
  "alloc_reg cg = (next_reg cg, cg\<lparr>next_reg := next_reg cg + 1\<rparr>)"

fun ast_op_to_ir :: "BinaryOp \<Rightarrow> IROpcode" where
  "ast_op_to_ir OP_ADD = IR_ADD"
| "ast_op_to_ir OP_SUB = IR_SUB"
| "ast_op_to_ir OP_MUL = IR_MUL"
| "ast_op_to_ir OP_DIV = IR_DIV"

text \<open>
  \<open>codegen_expr\<close> returns the register of the sub-expression and the code generator
  after the call. A \<open>Node\<close> is never NULL and has one of the two node types, so the
  calls of \<open>exit\<close> are not reached.
\<close>

fun codegen_expr :: "Codegen \<Rightarrow> Node \<Rightarrow> int \<times> Codegen" where
  "codegen_expr cg (NODE_NUMBER val) =
     (case alloc_reg cg of
        (reg, cg1) \<Rightarrow>
          (reg,
           cg1\<lparr>prog := ir_program_append (prog cg1)
             \<lparr>op = IR_LOAD_CONST, dst = reg, src = 0, imm = val, target = 0, addr = 0\<rparr>\<rparr>))"
| "codegen_expr cg (NODE_BINARY_OP bop left right) =
     (case codegen_expr cg left of
        (left_reg, cg1) \<Rightarrow>
          (case codegen_expr cg1 right of
             (right_reg, cg2) \<Rightarrow>
               (left_reg,
                cg2\<lparr>prog := ir_program_append (prog cg2)
                  \<lparr>op = ast_op_to_ir bop, dst = left_reg, src = right_reg, imm = 0,
                   target = 0, addr = 0\<rparr>\<rparr>)))"

text \<open>
  The steps of \<open>main\<close> that compile a tree: \<open>ir_program_init\<close>, \<open>codegen_init\<close> and
  \<open>codegen_expr\<close> on the root; the program is then run with no memory attached.
\<close>

definition main_codegen :: "Node \<Rightarrow> int \<times> Codegen" where
  "main_codegen root = codegen_expr (codegen_init ir_program_init) root"

section \<open>Notions used in the statements\<close>

text \<open>
  The definitions of this section are not code of the program: they name the
  conditions, the invariants and the example inputs of the theorems below.
\<close>

subsection \<open>ALU and memory\<close>

text \<open>
  The invariant of the loop of \<open>ripple_add\<close> before the iteration \<open>i\<close>, for the
  carry-in \<open>cin\<close>: \<open>result\<close> and \<open>carry\<close> hold the sum of the low \<open>i\<close> bits of the
  operands and of the carry-in.
\<close>

definition ripple_inv :: "word_t \<Rightarrow> word_t \<Rightarrow> nat \<Rightarrow> nat \<Rightarrow> word_t \<Rightarrow> word_t \<Rightarrow> bool" where
  "ripple_inv a b cin i result carry \<longleftrightarrow>
     i \<le> 32 \<and> (carry = 0 \<or> carry = 1) \<and> unat result < 2 ^ i \<and>
     unat result + unat carry * 2 ^ i = take_bit i (unat a) + take_bit i (unat b) + cin"

text \<open>A zeroed memory, as \<open>mem_init\<close> leaves it.\<close>

definition zero_mem :: Memory where
  "zero_mem = \<lparr>data = \<lambda>_. 0\<rparr>"

subsection \<open>Instructions and runs\<close>

text \<open>
  The instructions \<open>LOAD_CONST r, v\<close>, an arithmetic instruction with destination \<open>d\<close>
  and source \<open>s\<close>, and \<open>JMP t\<close>, with their unused fields zero; the jump to the index 0
  and a \<open>JZ\<close> to the index 5.
\<close>

definition load_const :: "int \<Rightarrow> int \<Rightarrow> IRInstr" where
  "load_const r v = \<lparr>op = IR_LOAD_CONST, dst = r, src = 0, imm = v, target = 0, addr = 0\<rparr>"

definition alu_instr :: "IROpcode \<Rightarrow> int \<Rightarrow> int \<Rightarrow> IRInstr" where
  "alu_instr opc d s = \<lparr>op = opc, dst = d, src = s, imm = 0, target = 0, addr = 0\<rparr>"

definition jmp_to :: "int \<Rightarrow> IRInstr" where
  "jmp_to t = \<lparr>op = IR_JMP, dst = 0, src = 0, imm = 0, target = t, addr = 0\<rparr>"

definition jmp0 :: IRInstr where
  "jmp0 = jmp_to 0"

definition jz_far :: IRInstr where
  "jz_far = \<lparr>op = IR_JZ, dst = 0, src = 0, imm = 0, target = 5, addr = 0\<rparr>"

text \<open>
  A branch instruction whose jump is performed in the CPU state \<open>c\<close>, and one whose
  jump is not.
\<close>

definition branch_taken :: "IRInstr \<Rightarrow> CPU \<Rightarrow> bool" where
  "branch_taken i c \<longleftrightarrow>
     op i = IR_JMP \<or> (op i = IR_JZ \<and> Z (flags c) \<noteq> 0) \<or> (op i = IR_JNZ \<and> Z (flags c) = 0)"

definition branch_not_taken :: "IRInstr \<Rightarrow> CPU \<Rightarrow> bool" where
  "branch_not_taken i c \<longleftrightarrow>
     (op i = IR_JZ \<and> Z (flags c) = 0) \<or> (op i = IR_JNZ \<and> Z (flags c) \<noteq> 0)"

text \<open>The bound on the step counter at every exit of the execution loop.\<close>

definition steps_bounded :: "cpu_error \<times> run_state + run_state \<Rightarrow> bool" where
  "steps_bounded r =
     (case r of
        Inl (e, st) \<Rightarrow>
          (if e = InfiniteLoopGuard then step_count st = CPU_MAX_STEPS + 1
           else step_count st \<le> CPU_MAX_STEPS)
      | Inr st \<Rightarrow> step_count st \<le> CPU_MAX_STEPS)"

text \<open>
  What \<open>cpu_execute\<close> delivers to its caller: the error, or the word of the last
  register written (\<open>*out_result\<close> is its sign extension).
\<close>

definition cpu_result :: "cpu_error \<times> run_state + run_state \<Rightarrow> cpu_error + word_t" where
  "cpu_result r = (case r of Inl (e, st) \<Rightarrow> Inl e | Inr st \<Rightarrow> Inr (final_reg st))"

text \<open>
  A register index that the CPU has, in the words of the specification: it lies in
  \<open>[0, 32)\<close>. An instruction that uses a register index outside this range, by the
  fields that the specification lists for its opcode; the index of the first such
  instruction of a program (the length of the program when there is none); and the
  opcodes that the code generator emits.
\<close>

definition reg_in_range :: "int \<Rightarrow> bool" where
  "reg_in_range r \<longleftrightarrow> 0 \<le> r \<and> r < 32"

definition uses_bad_reg :: "IRInstr \<Rightarrow> bool" where
  "uses_bad_reg i =
     (case op i of
        IR_LOAD_CONST \<Rightarrow> \<not> reg_in_range (dst i)
      | IR_JMP \<Rightarrow> False
      | IR_JZ \<Rightarrow> False
      | IR_JNZ \<Rightarrow> False
      | IR_LOAD \<Rightarrow> \<not> reg_in_range (dst i) \<or> \<not> reg_in_range (addr i)
      | IR_STORE \<Rightarrow> \<not> reg_in_range (src i) \<or> \<not> reg_in_range (addr i)
      | _ \<Rightarrow> \<not> reg_in_range (dst i) \<or> \<not> reg_in_range (src i))"

definition first_bad_reg :: "IRProgram \<Rightarrow> nat" where
  "first_bad_reg p = length (takeWhile (\<lambda>i. \<not> uses_bad_reg i) p)"

definition arith_instr :: "IRInstr \<Rightarrow> bool" where
  "arith_instr i \<longleftrightarrow> op i \<in> {IR_LOAD_CONST, IR_ADD, IR_SUB, IR_MUL, IR_DIV}"

text \<open>
  The registers in the words of the specification, for the instructions that the code
  generator emits: \<open>LoadConst\<close> is \<open>R[dst] \<leftarrow> imm mod 2\<^sup>3\<^sup>2\<close>, and \<open>Add\<close>, \<open>Sub\<close>, \<open>Mul\<close>
  and \<open>Div\<close> are \<open>R[dst] \<leftarrow> R[dst] op R[src]\<close> on 32-bit words. \<open>regs_before p j\<close> are
  the registers when the instruction at the index \<open>j\<close> of the straight-line program
  \<open>p\<close> is reached from zeroed registers, and \<open>zero_divisor_at p j\<close> says that this
  instruction is a \<open>Div\<close> whose source register then holds 0.
\<close>

definition ir_effect :: "IRInstr \<Rightarrow> (nat \<Rightarrow> word_t) \<Rightarrow> (nat \<Rightarrow> word_t)" where
  "ir_effect i R =
     (case op i of
        IR_LOAD_CONST \<Rightarrow> R(nat (dst i) := word_of_int (imm i))
      | IR_ADD \<Rightarrow> R(nat (dst i) := R (nat (dst i)) + R (nat (src i)))
      | IR_SUB \<Rightarrow> R(nat (dst i) := R (nat (dst i)) - R (nat (src i)))
      | IR_MUL \<Rightarrow> R(nat (dst i) := R (nat (dst i)) * R (nat (src i)))
      | IR_DIV \<Rightarrow> R(nat (dst i) := R (nat (dst i)) div R (nat (src i)))
      | _ \<Rightarrow> R)"

definition regs_before :: "IRProgram \<Rightarrow> nat \<Rightarrow> nat \<Rightarrow> word_t" where
  "regs_before p j = fold ir_effect (take j p) (\<lambda>_. 0)"

definition zero_divisor_at :: "IRProgram \<Rightarrow> nat \<Rightarrow> bool" where
  "zero_divisor_at p j \<longleftrightarrow> op (p ! j) = IR_DIV \<and> regs_before p j (nat (src (p ! j))) = 0"

text \<open>
  The state \<open>st'\<close> differs from \<open>st\<close> by \<open>k\<close> executed instructions that left the value
  \<open>v\<close> in the register \<open>r\<close>, wrote no register below \<open>r\<close> and did not touch the memory.
\<close>

definition computed :: "int \<Rightarrow> int \<Rightarrow> nat \<Rightarrow> run_state \<Rightarrow> run_state \<Rightarrow> bool" where
  "computed r v k st st' \<longleftrightarrow>
     pc (cpu st') = pc (cpu st) + k
     \<and> length (regs (cpu st')) = length (regs (cpu st))
     \<and> regs (cpu st') ! nat r = word_of_int v
     \<and> (\<forall>j<nat r. regs (cpu st') ! j = regs (cpu st) ! j)
     \<and> last_dst st' = r
     \<and> step_count st' = step_count st + k
     \<and> mem (cpu st') = mem (cpu st)"

subsection \<open>Expression trees\<close>

text \<open>The number of \<open>Number\<close> leaves of a tree.\<close>

fun leaves :: "Node \<Rightarrow> nat" where
  "leaves (NODE_NUMBER val) = 1"
| "leaves (NODE_BINARY_OP bop left right) = leaves left + leaves right"

text \<open>
  The lowering in the words of the specification, as a function of the tree and of the
  first free register \<open>r\<close>: a leaf loads its constant into \<open>r\<close>; a binary node lowers its
  left child from \<open>r\<close>, its right child from the next free register, and applies the
  operation with the left register as destination and the right one as source.
\<close>

fun lower :: "Node \<Rightarrow> int \<Rightarrow> IRInstr list" where
  "lower (NODE_NUMBER val) r = [load_const r val]"
| "lower (NODE_BINARY_OP bop left right) r =
     lower left r @ lower right (r + int (leaves left))
     @ [alu_instr (ast_op_to_ir bop) r (r + int (leaves left))]"

text \<open>
  The trees in which both operands of every division have reference values in
  \<open>[0, 2\<^sup>3\<^sup>2)\<close>: on these operands the unsigned 32-bit quotient of the ALU and the
  signed quotient of the evaluator agree.
\<close>

fun div_operands_u32 :: "Node \<Rightarrow> bool" where
  "div_operands_u32 (NODE_NUMBER val) = True"
| "div_operands_u32 (NODE_BINARY_OP bop left right) =
     (div_operands_u32 left \<and> div_operands_u32 right \<and>
      (bop = OP_DIV \<longrightarrow>
         (case (eval left, eval right) of
            (Inr lhs, Inr rhs) \<Rightarrow> 0 \<le> lhs \<and> lhs < 2 ^ 32 \<and> 0 \<le> rhs \<and> rhs < 2 ^ 32
          | _ \<Rightarrow> False)))"

text \<open>The word that the ALU returns for an operator of the tree.\<close>

fun word_op :: "BinaryOp \<Rightarrow> word_t \<Rightarrow> word_t \<Rightarrow> word_t" where
  "word_op OP_ADD a b = a + b"
| "word_op OP_SUB a b = a - b"
| "word_op OP_MUL a b = a * b"
| "word_op OP_DIV a b = a div b"

text \<open>
  Trees of the examples: \<open>3 + 4\<close>, \<open>(20 - 6) / 2\<close>, \<open>(0 - 6) / (0 - 2)\<close>,
  \<open>1 / 4294967296\<close>, the sum \<open>1 + (1 + (... + 1))\<close> with \<open>n + 1\<close> leaves, and
  \<open>1 / 4294967296 + (1 + (... + 1))\<close> with 34 leaves.
\<close>

definition three_plus_four :: Node where
  "three_plus_four = NODE_BINARY_OP OP_ADD (NODE_NUMBER 3) (NODE_NUMBER 4)"

definition quotient_tree :: Node where
  "quotient_tree =
     NODE_BINARY_OP OP_DIV (NODE_BINARY_OP OP_SUB (NODE_NUMBER 20) (NODE_NUMBER 6)) (NODE_NUMBER 2)"

definition negative_quotient_tree :: Node where
  "negative_quotient_tree =
     NODE_BINARY_OP OP_DIV (NODE_BINARY_OP OP_SUB (NODE_NUMBER 0) (NODE_NUMBER 6))
       (NODE_BINARY_OP OP_SUB (NODE_NUMBER 0) (NODE_NUMBER 2))"

definition wide_divisor_tree :: Node where
  "wide_divisor_tree = NODE_BINARY_OP OP_DIV (NODE_NUMBER 1) (NODE_NUMBER 4294967296)"

fun ones :: "nat \<Rightarrow> Node" where
  "ones 0 = NODE_NUMBER 1"
| "ones (Suc n) = NODE_BINARY_OP OP_ADD (NODE_NUMBER 1) (ones n)"

definition wide_divisor_then_ones :: Node where
  "wide_divisor_then_ones = NODE_BINARY_OP OP_ADD wide_divisor_tree (ones 31)"

section \<open>The ripple-carry adder computes the sum\<close>

lemma bit_and1: "drop_bit i (a::word_t) AND 1 = of_bool (bit a i)"
  by (simp add: and_one_eq bit_iff_odd_drop_bit mod_2_eq_odd)

lemma ripple_bit_bool:
  "ripple_bit a b i result (of_bool c) =
     (result OR push_bit i (of_bool ((bit a i \<noteq> bit b i) \<noteq> c)),
      of_bool ((bit a i \<and> bit b i) \<or> (c \<and> (bit a i \<noteq> bit b i))))"
  unfolding ripple_bit_def Let_def bit_and1
  by (cases "bit a i"; cases "bit b i"; cases c; simp)

lemma or_push:
  assumes "i < 32" "unat (result::word_t) < 2 ^ i"
  shows "unat (result OR push_bit i (of_bool s)) = unat result + 2 ^ i * of_bool s"
proof -
  have tb: "take_bit i (unat result) = unat result"
    using assms(2) by (simp add: take_bit_nat_eq_self_iff)
  have disj: "unat result AND push_bit i (of_bool s) = (0::nat)"
    by (metis (mono_tags, lifting) tb
    and.commute and_zero_eq bit_iff_and_drop_bit_eq_1
    bit_iff_and_push_bit_not_eq_0 of_bool_eq(1,2) push_bit_of_0
    take_bit_eq_self_iff_drop_bit_eq_0)
  have "(2::nat) ^ i < 2 ^ 32"
    using assms(1) by (intro power_strict_increasing) simp_all
  then have lt: "push_bit i (of_bool s :: nat) < 2 ^ 32"
    by (cases s) (simp_all add: push_bit_eq_mult)
  have "unat (result OR push_bit i (of_bool s)) = unat result OR take_bit 32 (push_bit i (of_bool s))"
    by (simp add: unsigned_or_eq unsigned_push_bit_eq)
  also have "\<dots> = unat result OR push_bit i (of_bool s)"
    using lt by (simp add: take_bit_nat_eq_self)
  also have "\<dots> = unat result + push_bit i (of_bool s)"
    using disj by (simp add: disjunctive_add_eq_or)
  finally show ?thesis by (simp add: push_bit_eq_mult)
qed

lemma ripple_inv_step:
  assumes "ripple_inv a b cin i result carry" "i < 32"
    and "ripple_bit a b i result carry = (result', carry')"
  shows "ripple_inv a b cin (Suc i) result' carry'"
proof -
  from assms(1) obtain c where c: "carry = of_bool c"
    unfolding ripple_inv_def by (metis of_bool_eq(1,2))
  define pa where "pa = bit a i"
  define pb where "pb = bit b i"
  define s where "s = ((pa \<noteq> pb) \<noteq> c)"
  have r': "result' = result OR push_bit i (of_bool s)"
    and c': "carry' = of_bool ((pa \<and> pb) \<or> (c \<and> (pa \<noteq> pb)))"
    using assms(3) unfolding c ripple_bit_bool pa_def pb_def s_def by simp_all
  have lt: "unat result < 2 ^ i"
    and eq: "unat result + of_bool c * 2 ^ i = take_bit i (unat a) + take_bit i (unat b) + cin"
    using assms(1) unfolding ripple_inv_def c by (cases c; simp)+
  have ur': "unat result' = unat result + 2 ^ i * of_bool s"
    unfolding r' by (rule or_push [OF assms(2) lt])
  have ba: "bit (unat a) i = pa" and bb: "bit (unat b) i = pb"
    using assms(2) by (simp_all add: bit_unsigned_iff pa_def pb_def)
  have ta: "take_bit (Suc i) (unat a) = 2 ^ i * of_bool pa + take_bit i (unat a)"
    and tb: "take_bit (Suc i) (unat b) = 2 ^ i * of_bool pb + take_bit i (unat b)"
    by (simp_all add: take_bit_Suc_from_most ba bb)
  have bits: "(of_bool s :: nat) + 2 * of_bool ((pa \<and> pb) \<or> (c \<and> (pa \<noteq> pb)))
      = of_bool c + of_bool pa + of_bool pb"
    unfolding s_def by (cases pa; cases pb; cases c; simp)
  have "unat result' < 2 ^ Suc i"
    using lt unfolding ur' by (cases s) simp_all
  moreover have "unat result' + unat carry' * 2 ^ Suc i
      = take_bit (Suc i) (unat a) + take_bit (Suc i) (unat b) + cin"
  proof -
    have "unat result' + unat carry' * 2 ^ Suc i
        = unat result + 2 ^ i * (of_bool s + 2 * of_bool ((pa \<and> pb) \<or> (c \<and> (pa \<noteq> pb))))"
      unfolding ur' c' by (simp add: algebra_simps)
    also have "\<dots> = unat result + 2 ^ i * (of_bool c + of_bool pa + of_bool pb)"
      unfolding bits ..
    also have "\<dots> = take_bit (Suc i) (unat a) + take_bit (Suc i) (unat b) + cin"
      unfolding ta tb using eq by (simp add: algebra_simps)
    finally show ?thesis .
  qed
  moreover have "carry' = 0 \<or> carry' = 1" unfolding c' by auto
  ultimately show ?thesis
    unfolding ripple_inv_def using assms(2) by simp
qed

lemma ripple_loop_inv:
  "ripple_inv a b cin i result carry \<Longrightarrow> ripple_loop a b i result carry = (r, c)
     \<Longrightarrow> ripple_inv a b cin 32 r c"
proof (induction a b i result carry rule: ripple_loop.induct)
  case (1 a b i result carry)
  show ?case
  proof (cases "i < 32")
    case True
    obtain result' carry' where rb: "ripple_bit a b i result carry = (result', carry')"
      by (cases "ripple_bit a b i result carry")
    have "ripple_inv a b cin (Suc i) result' carry'"
      by (rule ripple_inv_step [OF "1.prems"(1) True rb])
    moreover have "ripple_loop a b (Suc i) result' carry' = (r, c)"
      using "1.prems"(2) True rb by (simp add: ripple_loop.simps [of a b i] WORD_BITS_def)
    ultimately show ?thesis
      using "1.IH" True rb by (simp add: WORD_BITS_def)
  next
    case False
    have "ripple_loop a b i result carry = (result, carry)"
      using False by (simp add: ripple_loop.simps [of a b i] WORD_BITS_def)
    with "1.prems"(2) have rc: "r = result" "c = carry" by simp_all
    from False "1.prems"(1) have "i = 32" by (simp add: ripple_inv_def)
    with "1.prems"(1) rc show ?thesis by simp
  qed
qed

lemma ripple_loop_sum:
  assumes "ripple_loop a b 0 0 cw = (r, c)" "cw = 0 \<or> cw = 1"
  shows "unat r = (unat a + unat b + unat cw) mod 2 ^ 32"
    and "unat c = (unat a + unat b + unat cw) div 2 ^ 32"
    and  "c = 0 \<or> c = 1"
proof -
  have "ripple_inv a b (unat cw) 0 0 cw"
    using assms(2) by (auto simp: ripple_inv_def)
  from ripple_loop_inv [OF this assms(1)]
  have lt: "unat r < 2 ^ 32" and c01: "c = 0 \<or> c = 1"
    and eq: "unat r + unat c * 2 ^ 32 = take_bit 32 (unat a) + take_bit 32 (unat b) + unat cw"
    by (simp_all add: ripple_inv_def)
  have ta: "take_bit 32 (unat a) = unat a" and tb: "take_bit 32 (unat b) = unat b"
    using unsigned_less [of a, where 'a = nat] unsigned_less [of b, where 'a = nat]
    by (simp_all add: take_bit_nat_eq_self_iff)
  from eq have eq': "unat a + unat b + unat cw = unat c * 2 ^ 32 + unat r"
    unfolding ta tb by simp
  show "unat r = (unat a + unat b + unat cw) mod 2 ^ 32"
    unfolding eq' using lt by simp
  show "unat c = (unat a + unat b + unat cw) div 2 ^ 32"
    unfolding eq' using lt by simp
  show "c = 0 \<or> c = 1" by (rule c01)
qed

lemma sign_bit_bool: "sign_bit w = of_bool (bit w 31)"
  unfolding sign_bit_def bit_and1 by (cases "bit w 31") simp_all

lemma ripple_add_sum:
  assumes "cw = 0 \<or> cw = 1"
  shows "fst (ripple_add a b cw f) = a + b + cw"
    and "C (snd (ripple_add a b cw f)) = (if 2 ^ 32 \<le> unat a + unat b + unat cw then 1 else 0)"
    and "Z (snd (ripple_add a b cw f)) = (if a + b + cw = 0 then 1 else 0)"
    and "N (snd (ripple_add a b cw f)) = sign_bit (a + b + cw)"
    and "V (snd (ripple_add a b cw f)) = V f"
proof -
  obtain r c where rl: "ripple_loop a b 0 0 cw = (r, c)"
    by (cases "ripple_loop a b 0 0 cw")
  have cw1: "cw AND 1 = cw" using assms by auto
  note sums = ripple_loop_sum [OF rl assms]
  have "unat r = unat (a + b + cw)"
    unfolding sums(1) by (simp add: unat_word_ariths mod_simps)
  then have r: "r = a + b + cw" by (rule word_unat_eq_iff [THEN iffD2])
  have "unat a + unat b + unat cw < 2 * 2 ^ 32"
    using unsigned_less [of a, where 'a = nat] unsigned_less [of b, where 'a = nat] assms
    by auto
  then have "unat c = (if 2 ^ 32 \<le> unat a + unat b + unat cw then 1 else 0)"
    unfolding sums(2) by (auto simp: div_eq_0_iff intro: le_antisym simp: less_mult_imp_div_less)
  then have c: "c = (if 2 ^ 32 \<le> unat a + unat b + unat cw then 1 else 0)"
    using word_unat_eq_iff by force
  show "fst (ripple_add a b cw f) = a + b + cw"
    unfolding ripple_add_def cw1 rl by (simp add: r)
  show "C (snd (ripple_add a b cw f)) = (if 2 ^ 32 \<le> unat a + unat b + unat cw then 1 else 0)"
    unfolding ripple_add_def cw1 rl by (simp add: c)
  show "Z (snd (ripple_add a b cw f)) = (if a + b + cw = 0 then 1 else 0)"
    unfolding ripple_add_def cw1 rl by (simp add: r)
  show "N (snd (ripple_add a b cw f)) = sign_bit (a + b + cw)"
    unfolding ripple_add_def cw1 rl by (simp add: r sign_bit_def)
  show "V (snd (ripple_add a b cw f)) = V f"
    unfolding ripple_add_def cw1 rl by simp
qed

lemma flags_eqI:
  "Z f = z \<Longrightarrow> N f = n \<Longrightarrow> C f = c \<Longrightarrow> V f = v \<Longrightarrow> (f::ALUFlags) = \<lparr>Z = z, N = n, C = c, V = v\<rparr>"
  by (cases f) simp

lemma alu_add_eq:
  "alu_add a b f =
     (a + b,
      \<lparr>Z = of_bool (a + b = 0), N = of_bool (bit (a + b) 31),
       C = of_bool (2 ^ 32 \<le> unat a + unat b),
       V = of_bool (bit a 31 = bit b 31 \<and> bit (a + b) 31 \<noteq> bit a 31)\<rparr>)"
proof -
  obtain r f1 where ra: "ripple_add a b 0 f = (r, f1)"
    by (cases "ripple_add a b 0 f")
  have z: "(0::word_t) = 0 \<or> (0::word_t) = 1" by simp
  from ripple_add_sum [OF z, of a b f] ra
  have r: "r = a + b" and f1: "C f1 = of_bool (2 ^ 32 \<le> unat a + unat b)"
    "Z f1 = of_bool (a + b = 0)" "N f1 = of_bool (bit (a + b) 31)"
    by (simp_all add: sign_bit_bool)
  have "f1\<lparr>V := bool_u8 (sign_bit a = sign_bit b \<and> sign_bit r \<noteq> sign_bit a)\<rparr> =
      \<lparr>Z = of_bool (a + b = 0), N = of_bool (bit (a + b) 31),
       C = of_bool (2 ^ 32 \<le> unat a + unat b),
       V = of_bool (bit a 31 = bit b 31 \<and> bit (a + b) 31 \<noteq> bit a 31)\<rparr>"
    by (cases f1) (use f1 in \<open>auto simp: r sign_bit_bool bool_u8_def\<close>)
  then show ?thesis
    unfolding alu_add_def ra by (simp add: Let_def r)
qed

lemma unat_not32: "unat (NOT b :: word_t) = 2 ^ 32 - 1 - unat b"
proof -
  have "NOT b = - 1 - b" by (simp add: not_eq_complement)
  moreover have "b \<le> - 1" by simp
  ultimately have "unat (NOT b) = unat (- 1 :: word_t) - unat b"
    by (simp add: unat_sub)
  then show ?thesis by (simp add: unsigned_minus_1_eq_mask mask_eq_exp_minus_1)
qed

lemma alu_sub_eq:
  "alu_sub a b f =
     (a - b,
      \<lparr>Z = of_bool (a = b), N = of_bool (bit (a - b) 31),
       C = of_bool (b \<le> a),
       V = of_bool (bit a 31 \<noteq> bit b 31 \<and> bit (a - b) 31 \<noteq> bit a 31)\<rparr>)"
proof -
  obtain r f1 where ra: "ripple_add a (NOT b) 1 f = (r, f1)"
    by (cases "ripple_add a (NOT b) 1 f")
  have z: "(1::word_t) = 0 \<or> (1::word_t) = 1" by simp
  have s: "a + NOT b + 1 = a - b" by (simp add: not_eq_complement)
  have "unat b < 2 ^ 32" using unsigned_less [of b, where 'a = nat] by simp
  then have c: "2 ^ 32 \<le> unat a + unat (NOT b) + unat (1::word_t) \<longleftrightarrow> b \<le> a"
    unfolding unat_not32 word_le_nat_alt by simp arith
  from ripple_add_sum [OF z, of a "NOT b" f] ra
  have r: "r = a - b" and f1: "C f1 = of_bool (b \<le> a)"
    "Z f1 = of_bool (a = b)" "N f1 = of_bool (bit (a - b) 31)"
    unfolding s c by (simp_all add: sign_bit_bool)
  have "f1\<lparr>V := bool_u8 (sign_bit a \<noteq> sign_bit b \<and> sign_bit r \<noteq> sign_bit a)\<rparr> =
      \<lparr>Z = of_bool (a = b), N = of_bool (bit (a - b) 31),
       C = of_bool (b \<le> a),
       V = of_bool (bit a 31 \<noteq> bit b 31 \<and> bit (a - b) 31 \<noteq> bit a 31)\<rparr>"
    by (cases f1) (use f1 in \<open>auto simp: r sign_bit_bool bool_u8_def\<close>)
  then show ?thesis
    unfolding alu_sub_def ra by (simp add: Let_def r)
qed

text \<open>
  C3. For all words \<open>a\<close> and \<open>b\<close>, \<open>alu_add\<close> (the ripple-carry loop over the bits
  0 to 31) returns \<open>(a + b) mod 2\<^sup>3\<^sup>2\<close>; C is the carry out of bit 31, that is
  \<open>a + b \<ge> 2\<^sup>3\<^sup>2\<close> on the unsigned values; Z says that the result is 0; N is bit 31
  of the result; V says that the operands have the same sign and the result the other
  one. The two boundary cases of the specification are instances.
\<close>

theorem alu_add_correct:
  "fst (alu_add a b f) = a + b
   \<and> unat (fst (alu_add a b f)) = (unat a + unat b) mod 2 ^ 32
   \<and> C (snd (alu_add a b f)) = of_bool (2 ^ 32 \<le> unat a + unat b)
   \<and> Z (snd (alu_add a b f)) = of_bool (fst (alu_add a b f) = 0)
   \<and> N (snd (alu_add a b f)) = of_bool (bit (fst (alu_add a b f)) 31)
   \<and> V (snd (alu_add a b f)) =
       of_bool (bit a 31 = bit b 31 \<and> bit (fst (alu_add a b f)) 31 \<noteq> bit a 31)
   \<and> alu_add 0x7FFFFFFF 1 f = (0x80000000, \<lparr>Z = 0, N = 1, C = 0, V = 1\<rparr>)
   \<and> alu_add 0xFFFFFFFF 1 f = (0, \<lparr>Z = 1, N = 0, C = 1, V = 0\<rparr>)"
proof -
  have ex1: "alu_add 0x7FFFFFFF 1 f = (0x80000000, \<lparr>Z = 0, N = 1, C = 0, V = 1\<rparr>)"
    unfolding alu_add_eq by (simp add: bit_iff_odd)
  have ex2: "alu_add 0xFFFFFFFF 1 f = (0, \<lparr>Z = 1, N = 0, C = 1, V = 0\<rparr>)"
    unfolding alu_add_eq by (simp add: bit_iff_odd)
  show ?thesis
    unfolding ex1 ex2 unfolding alu_add_eq by (simp add: unat_word_ariths)
qed

text \<open>
  C4. For all words \<open>a\<close> and \<open>b\<close>, \<open>alu_sub\<close> (the ripple adder on \<open>a\<close>, the
  complement of \<open>b\<close> and a carry-in of 1) returns \<open>(a - b) mod 2\<^sup>3\<^sup>2\<close>; Z is 1 exactly
  when \<open>a = b\<close>, and C is 1 exactly when \<open>a \<ge> b\<close> on the unsigned values (no borrow).
\<close>

theorem alu_sub_correct:
  "fst (alu_sub a b f) = a - b
   \<and> int (unat (fst (alu_sub a b f))) = (int (unat a) - int (unat b)) mod 2 ^ 32
   \<and> Z (snd (alu_sub a b f)) = of_bool (a = b)
   \<and> C (snd (alu_sub a b f)) = of_bool (unat a \<ge> unat b)
   \<and> alu_sub 0 1 f = (0xFFFFFFFF, \<lparr>Z = 0, N = 1, C = 0, V = 0\<rparr>)
   \<and> alu_sub 5 5 f = (0, \<lparr>Z = 1, N = 0, C = 1, V = 0\<rparr>)"
proof -
  have ex1: "alu_sub 0 1 f = (0xFFFFFFFF, \<lparr>Z = 0, N = 1, C = 0, V = 0\<rparr>)"
    unfolding alu_sub_eq by (simp add: bit_iff_odd)
  have ex2: "alu_sub 5 5 f = (0, \<lparr>Z = 1, N = 0, C = 1, V = 0\<rparr>)"
    unfolding alu_sub_eq by (simp add: bit_iff_odd)
  have "int (unat (a - b)) = (int (unat a) - int (unat b)) mod 2 ^ 32"
    by (simp add: uint_word_ariths)
  then show ?thesis
    unfolding ex1 ex2 unfolding alu_sub_eq by (simp add: word_le_nat_alt)
qed

section \<open>Memory: round trip and failures\<close>

lemma ff_mask: "(0xFF :: word_t) = mask 8"
  by (simp add: mask_eq_exp_minus_1)

lemma word_reassemble:
  "(ucast (ucast (v AND 0xFF) :: u8) :: word_t)
     OR push_bit 8 (ucast (ucast (drop_bit 8 v AND 0xFF) :: u8))
     OR push_bit 16 (ucast (ucast (drop_bit 16 v AND 0xFF) :: u8))
     OR push_bit 24 (ucast (ucast (drop_bit 24 v AND 0xFF) :: u8)) = (v :: word_t)"
  unfolding ff_mask
proof (rule bit_word_eqI)
  fix n :: nat
  assume "n < LENGTH(32)"
  then consider "n < 8" | "8 \<le> n" "n < 16" | "16 \<le> n" "n < 24" | "24 \<le> n" "n < 32"
    by fastforce
  then show "bit ((ucast (ucast (v AND mask 8) :: u8) :: word_t)
     OR push_bit 8 (ucast (ucast (drop_bit 8 v AND mask 8) :: u8))
     OR push_bit 16 (ucast (ucast (drop_bit 16 v AND mask 8) :: u8))
     OR push_bit 24 (ucast (ucast (drop_bit 24 v AND mask 8) :: u8))) n = bit v n"
    by cases (auto simp: bit_simps)
qed

lemma unat_addr_plus:
  assumes "unat (a :: word_t) \<le> MEM_SIZE - MEM_WORD_SIZE"
  shows "unat (a + 1) = unat a + 1" "unat (a + 2) = unat a + 2"
    "unat (a + 3) = unat a + 3"
  using assms by (simp_all add: unat_word_ariths MEM_SIZE_def MEM_WORD_SIZE_def)

lemma check_access_None:
  "check_access a = None \<longleftrightarrow> unat a mod 4 = 0 \<and> unat a \<le> MEM_SIZE - 4"
  by (auto simp: check_access_def MEM_WORD_SIZE_def)

text \<open>
  C8. For every 4-byte-aligned address \<open>a \<le> MEM_SIZE - 4\<close> and every word \<open>v\<close>,
  \<open>mem_write_word\<close> succeeds, \<open>mem_read_word\<close> at \<open>a\<close> then succeeds and yields \<open>v\<close>,
  and the byte at \<open>a + k\<close> is \<open>(v >> 8k) & 0xFF\<close> for \<open>k = 0, 1, 2, 3\<close> (little-endian).
\<close>

theorem mem_write_read_roundtrip:
  assumes "unat a mod 4 = 0" and "unat a \<le> MEM_SIZE - 4"
  shows "\<exists>m'. mem_write_word (Some m) a v = (None, Some m')
     \<and> mem_read_word (Some m') a = Inr v
     \<and> data m' (unat a) = ucast (v AND 0xFF)
     \<and> data m' (unat a + 1) = ucast (drop_bit 8 v AND 0xFF)
     \<and> data m' (unat a + 2) = ucast (drop_bit 16 v AND 0xFF)
     \<and> data m' (unat a + 3) = ucast (drop_bit 24 v AND 0xFF)"
proof -
  have ca: "check_access a = None"
    using assms by (simp add: check_access_None)
  have le: "unat a \<le> MEM_SIZE - MEM_WORD_SIZE"
    using assms(2) by (simp add: MEM_WORD_SIZE_def)
  note up = unat_addr_plus [OF le]
  define m' where "m' = m\<lparr>data := (data m)
                  (unat a := ucast (v AND 0xFF),
                   unat a + 1 := ucast (drop_bit 8 v AND 0xFF),
                   unat a + 2 := ucast (drop_bit 16 v AND 0xFF),
                   unat a + 3 := ucast (drop_bit 24 v AND 0xFF))\<rparr>"
  have w: "mem_write_word (Some m) a v = (None, Some m')"
    by (simp add: mem_write_word_def ca up m'_def)
  have bytes: "data m' (unat a) = ucast (v AND 0xFF)"
    "data m' (unat a + 1) = ucast (drop_bit 8 v AND 0xFF)"
    "data m' (unat a + 2) = ucast (drop_bit 16 v AND 0xFF)"
    "data m' (unat a + 3) = ucast (drop_bit 24 v AND 0xFF)"
    by (simp_all add: m'_def)
  have "mem_read_word (Some m') a =
      Inr ((ucast (data m' (unat a)) :: word_t)
           OR push_bit 8 (ucast (data m' (unat a + 1)))
           OR push_bit 16 (ucast (data m' (unat a + 2)))
           OR push_bit 24 (ucast (data m' (unat a + 3))))"
    by (simp add: mem_read_word_def ca up)
  then have r: "mem_read_word (Some m') a = Inr v"
    unfolding bytes by (simp only: word_reassemble)
  show ?thesis
    using w r bytes by blast
qed

text \<open>The round trip of \<open>0xDEADBEEF\<close> at the address \<open>0x200\<close> of a zeroed memory.\<close>

theorem mem_write_read_roundtrip_witness:
  "mem_read_word (snd (mem_write_word (Some zero_mem) 0x200 0xDEADBEEF)) 0x200
     = Inr 0xDEADBEEF
   \<and> fst (mem_write_word (Some zero_mem) 0x200 0xDEADBEEF) = None
   \<and> data (the (snd (mem_write_word (Some zero_mem) 0x200 0xDEADBEEF))) 0x200 = 0xEF
   \<and> data (the (snd (mem_write_word (Some zero_mem) 0x200 0xDEADBEEF))) 0x201 = 0xBE
   \<and> data (the (snd (mem_write_word (Some zero_mem) 0x200 0xDEADBEEF))) 0x202 = 0xAD
   \<and> data (the (snd (mem_write_word (Some zero_mem) 0x200 0xDEADBEEF))) 0x203 = 0xDE"
proof -
  have h1: "unat (0x200 :: word_t) mod 4 = 0" by simp
  have h2: "unat (0x200 :: word_t) \<le> MEM_SIZE - 4" by (simp add: MEM_SIZE_def)
  from mem_write_read_roundtrip [OF h1 h2, of "zero_mem" "0xDEADBEEF"]
  obtain m' where "mem_write_word (Some zero_mem) 0x200 0xDEADBEEF = (None, Some m')"
    "mem_read_word (Some m') 0x200 = Inr 0xDEADBEEF"
    "data m' (unat (0x200 :: word_t)) = ucast ((0xDEADBEEF :: word_t) AND 0xFF)"
    "data m' (unat (0x200 :: word_t) + 1) = ucast (drop_bit 8 (0xDEADBEEF :: word_t) AND 0xFF)"
    "data m' (unat (0x200 :: word_t) + 2) = ucast (drop_bit 16 (0xDEADBEEF :: word_t) AND 0xFF)"
    "data m' (unat (0x200 :: word_t) + 3) = ucast (drop_bit 24 (0xDEADBEEF :: word_t) AND 0xFF)"
    by blast
  then show ?thesis by (simp add: drop_bit_eq_div)
qed

lemma mem_read_word_error:
  "mem_read_word (Some m) a = Inl e \<longleftrightarrow> check_access a = Some e"
  by (simp add: mem_read_word_def split: option.split)

lemma mem_write_word_error:
  "fst (mem_write_word (Some m) a v) = Some e \<longleftrightarrow> check_access a = Some e"
  by (simp add: mem_write_word_def split: option.split)

lemma check_access_error:
  "check_access a = Some AlignmentError \<longleftrightarrow> unat a mod 4 \<noteq> 0"
  "check_access a = Some BoundsError \<longleftrightarrow> unat a mod 4 = 0 \<and> MEM_SIZE - 4 < unat a"
  by (simp_all add: check_access_def MEM_WORD_SIZE_def)

text \<open>
  C9, as the code has it. \<open>mem_read_word\<close> and \<open>mem_write_word\<close> fail with
  \<open>AlignmentError\<close> exactly when \<open>a mod 4 \<noteq> 0\<close>, and with \<open>BoundsError\<close> exactly when
  \<open>a\<close> is 4-byte aligned and \<open>a > MEM_SIZE - 4\<close>, where \<open>MEM_SIZE = 65536\<close>: the
  alignment check comes first. A failing write leaves the memory as it was.
  \<open>read_word(0x102)\<close> fails with \<open>AlignmentError\<close>, \<open>read_word(0x10000)\<close> with
  \<open>BoundsError\<close>, and \<open>read_word(0xFFFC)\<close> succeeds.
\<close>

theorem mem_access_errors:
  "(mem_read_word (Some m) a = Inl AlignmentError \<longleftrightarrow> unat a mod 4 \<noteq> 0)
   \<and> (mem_read_word (Some m) a = Inl BoundsError \<longleftrightarrow> unat a mod 4 = 0 \<and> MEM_SIZE - 4 < unat a)
   \<and> (fst (mem_write_word (Some m) a v) = Some AlignmentError \<longleftrightarrow> unat a mod 4 \<noteq> 0)
   \<and> (fst (mem_write_word (Some m) a v) = Some BoundsError
        \<longleftrightarrow> unat a mod 4 = 0 \<and> MEM_SIZE - 4 < unat a)
   \<and> (fst (mem_write_word (Some m) a v) \<noteq> None \<longrightarrow> snd (mem_write_word (Some m) a v) = Some m)
   \<and> MEM_SIZE = 65536
   \<and> mem_read_word (Some m) 0x102 = Inl AlignmentError
   \<and> mem_read_word (Some m) 0x10000 = Inl BoundsError
   \<and> (\<exists>w. mem_read_word (Some m) 0xFFFC = Inr w)"
proof -
  have unchanged:
    "fst (mem_write_word (Some m) a v) \<noteq> None \<longrightarrow> snd (mem_write_word (Some m) a v) = Some m"
    by (simp add: mem_write_word_def split: option.split)
  have ex1: "mem_read_word (Some m) 0x102 = Inl AlignmentError"
    by (simp add: mem_read_word_error check_access_error)
  have ex2: "mem_read_word (Some m) 0x10000 = Inl BoundsError"
    by (simp add: mem_read_word_error check_access_error MEM_SIZE_def)
  have "check_access 0xFFFC = None"
    by (simp add: check_access_None MEM_SIZE_def)
  then have ex3: "\<exists>w. mem_read_word (Some m) 0xFFFC = Inr w"
    by (simp add: mem_read_word_def)
  show ?thesis
    using unchanged ex1 ex2 ex3
    by (simp add: mem_read_word_error mem_write_word_error check_access_error MEM_SIZE_def)
qed

text \<open>
  The misaligned address \<open>0x10001\<close>, beyond the last word: both accesses fail with
  \<open>AlignmentError\<close>, and the write leaves the memory as it was.
\<close>

theorem mem_access_errors_witness:
  "mem_read_word (Some zero_mem) 0x10001 = Inl AlignmentError
   \<and> mem_read_word (Some zero_mem) 0x10001 \<noteq> Inl BoundsError
   \<and> fst (mem_write_word (Some zero_mem) 0x10001 7) = Some AlignmentError
   \<and> fst (mem_write_word (Some zero_mem) 0x10001 7) \<noteq> Some BoundsError
   \<and> snd (mem_write_word (Some zero_mem) 0x10001 7) = Some zero_mem"
  using mem_access_errors [of zero_mem "0x10001" 7] by (simp add: MEM_SIZE_def)

text \<open>
  The claim C9 as it is stated fails at the address \<open>0x10001\<close>: it is greater than
  \<open>MEM_SIZE - 4\<close>, and the accesses do not fail with \<open>BoundsError\<close>.
\<close>

theorem bounds_error_needs_alignment:
  "MEM_SIZE - 4 < unat (0x10001 :: word_t)
   \<and> mem_read_word (Some zero_mem) 0x10001 \<noteq> Inl BoundsError
   \<and> fst (mem_write_word (Some zero_mem) 0x10001 7) \<noteq> Some BoundsError"
  by (simp add: mem_read_word_error mem_write_word_error check_access_error MEM_SIZE_def)

section \<open>CPU: the execution loop\<close>

lemma dispatch_ops:
  "op i = IR_LOAD_CONST \<Longrightarrow> dispatch i n c ld =
     (if check_reg (dst i) \<noteq> 0 then Inl RegisterOutOfRange
      else Inr (c\<lparr>regs := (regs c)[nat (dst i) := word_of_int (imm i)]\<rparr>, dst i, False))"
  "op i = IR_ADD \<Longrightarrow> dispatch i n c ld = exec_alu alu_add i c"
  "op i = IR_SUB \<Longrightarrow> dispatch i n c ld = exec_alu alu_sub i c"
  "op i = IR_MUL \<Longrightarrow> dispatch i n c ld = exec_alu alu_mul i c"
  "op i = IR_DIV \<Longrightarrow> dispatch i n c ld =
     (if check_reg (dst i) \<noteq> 0 then Inl RegisterOutOfRange
      else if check_reg (src i) \<noteq> 0 then Inl RegisterOutOfRange
      else if regs c ! nat (src i) = 0 then Inl DivisionByZero
      else exec_alu alu_div i c)"
  "op i = IR_CMP \<Longrightarrow> dispatch i n c ld =
     (if check_reg (dst i) \<noteq> 0 then Inl RegisterOutOfRange
      else if check_reg (src i) \<noteq> 0 then Inl RegisterOutOfRange
      else Inr (c\<lparr>flags := snd (alu_sub (regs c ! nat (dst i)) (regs c ! nat (src i)) (flags c))\<rparr>,
                ld, False))"
  "op i = IR_JMP \<Longrightarrow> dispatch i n c ld =
     (if check_target (target i) n \<noteq> 0 then Inl BranchOutOfRange
      else Inr (c\<lparr>pc := nat (target i)\<rparr>, ld, True))"
  "op i = IR_JZ \<Longrightarrow> dispatch i n c ld =
     (if Z (flags c) \<noteq> 0
      then (if check_target (target i) n \<noteq> 0 then Inl BranchOutOfRange
            else Inr (c\<lparr>pc := nat (target i)\<rparr>, ld, True))
      else Inr (c, ld, False))"
  "op i = IR_JNZ \<Longrightarrow> dispatch i n c ld =
     (if Z (flags c) = 0
      then (if check_target (target i) n \<noteq> 0 then Inl BranchOutOfRange
            else Inr (c\<lparr>pc := nat (target i)\<rparr>, ld, True))
      else Inr (c, ld, False))"
  "op i = IR_LOAD \<Longrightarrow> dispatch i n c ld =
     (if check_reg (dst i) \<noteq> 0 then Inl RegisterOutOfRange
      else if check_reg (addr i) \<noteq> 0 then Inl RegisterOutOfRange
      else if mem c = None then Inl MemoryNotAttached
      else (case mem_read_word (mem c) (regs c ! nat (addr i)) of
              Inl e \<Rightarrow> Inl (MemoryError e)
            | Inr val \<Rightarrow> Inr (c\<lparr>regs := (regs c)[nat (dst i) := val]\<rparr>, dst i, False)))"
  "op i = IR_STORE \<Longrightarrow> dispatch i n c ld =
     (if check_reg (src i) \<noteq> 0 then Inl RegisterOutOfRange
      else if check_reg (addr i) \<noteq> 0 then Inl RegisterOutOfRange
      else if mem c = None then Inl MemoryNotAttached
      else (case mem_write_word (mem c) (regs c ! nat (addr i)) (regs c ! nat (src i)) of
              (Some e, m) \<Rightarrow> Inl (MemoryError e)
            | (None, m) \<Rightarrow> Inr (c\<lparr>mem := m\<rparr>, ld, False)))"
  by (simp_all add: dispatch_def split: prod.split)

lemma exec_alu_ok:
  "check_reg (dst i) = 0 \<Longrightarrow> check_reg (src i) = 0 \<Longrightarrow>
   exec_alu f i c =
     Inr (c\<lparr>regs := (regs c)[nat (dst i) := fst (f (regs c ! nat (dst i)) (regs c ! nat (src i)) (flags c))],
            flags := snd (f (regs c ! nat (dst i)) (regs c ! nat (src i)) (flags c))\<rparr>,
          dst i, False)"
  by (simp add: exec_alu_def split: prod.split)

lemma exec_alu_cases:
  "exec_alu f i c = Inl e \<Longrightarrow> e = RegisterOutOfRange"
  by (simp add: exec_alu_def split: if_splits prod.splits)

lemma dispatch_not_guard:
  "dispatch i n c ld \<noteq> Inl InfiniteLoopGuard"
proof (cases "op i")
  case IR_LOAD thus ?thesis by (simp add: dispatch_ops split: sum.split)
next
  case IR_STORE thus ?thesis by (simp add: dispatch_ops split: prod.split option.split)
qed (auto simp: dispatch_ops dest: exec_alu_cases)

lemma cpu_loop_exit:
  "\<not> pc (cpu st) < length p \<Longrightarrow> cpu_loop p st = Inr st"
  by (simp add: cpu_loop.simps [of p st])

lemma cpu_loop_guard:
  "pc (cpu st) < length p \<Longrightarrow> CPU_MAX_STEPS \<le> step_count st \<Longrightarrow>
   cpu_loop p st = Inl (InfiniteLoopGuard, st\<lparr>step_count := step_count st + 1\<rparr>)"
  by (simp add: cpu_loop.simps [of p st])

lemma cpu_loop_fail:
  "pc (cpu st) < length p \<Longrightarrow> step_count st < CPU_MAX_STEPS \<Longrightarrow>
   dispatch (p ! pc (cpu st)) (length p) (cpu st) (last_dst st) = Inl e \<Longrightarrow>
   cpu_loop p st = Inl (e, st\<lparr>step_count := step_count st + 1\<rparr>)"
  by (simp add: cpu_loop.simps [of p st])

lemma cpu_loop_step:
  "pc (cpu st) < length p \<Longrightarrow> step_count st < CPU_MAX_STEPS \<Longrightarrow>
   dispatch (p ! pc (cpu st)) (length p) (cpu st) (last_dst st) = Inr (c, ld, jumped) \<Longrightarrow>
   cpu_loop p st =
     cpu_loop p \<lparr>cpu = (if jumped then c else c\<lparr>pc := pc c + 1\<rparr>), last_dst = ld,
                 step_count = step_count st + 1\<rparr>"
  by (simp add: cpu_loop.simps [of p st])

lemma cpu_loop_steps_bounded:
  "step_count st \<le> CPU_MAX_STEPS \<Longrightarrow> steps_bounded (cpu_loop p st)"
proof (induction p st rule: cpu_loop.induct)
  case (1 p st)
  show ?case
  proof (cases "pc (cpu st) < length p")
    case False
    then show ?thesis
      using "1.prems" by (simp add: cpu_loop_exit steps_bounded_def)
  next
    case inside: True
    show ?thesis
    proof (cases "step_count st < CPU_MAX_STEPS")
      case False
      with "1.prems" have "step_count st = CPU_MAX_STEPS" by simp
      then show ?thesis
        using inside by (simp add: cpu_loop_guard steps_bounded_def)
    next
      case steps: True
      show ?thesis
      proof (cases "dispatch (p ! pc (cpu st)) (length p) (cpu st) (last_dst st)")
        case (Inl e)
        have "e \<noteq> InfiniteLoopGuard"
          using Inl dispatch_not_guard [of "p ! pc (cpu st)" "length p" "cpu st" "last_dst st"] by auto
        then show ?thesis
          using steps by (simp add: cpu_loop_fail [OF inside steps Inl] steps_bounded_def)
      next
        case (Inr x)
        obtain c ld jumped where x: "x = (c, ld, jumped)" by (cases x)
        note d = Inr [unfolded x]
        have "steps_bounded (cpu_loop p \<lparr>cpu = (if jumped then c else c\<lparr>pc := pc c + 1\<rparr>),
                 last_dst = ld, step_count = step_count st + 1\<rparr>)"
          using "1.IH" [OF inside refl _ d refl refl] steps by simp
        then show ?thesis
          by (simp add: cpu_loop_step [OF inside steps d])
      qed
    qed
  qed
qed


lemma dispatch_taken:
  "branch_taken i c \<Longrightarrow>
   dispatch i n c ld =
     (if target i < 0 \<or> int n < target i then Inl BranchOutOfRange
      else Inr (c\<lparr>pc := nat (target i)\<rparr>, ld, True))"
  unfolding branch_taken_def
  by (elim disjE conjE) (simp_all add: dispatch_ops check_target_def, auto)

lemma dispatch_not_taken:
  "branch_not_taken i c \<Longrightarrow> dispatch i n c ld = Inr (c, ld, False)"
  unfolding branch_not_taken_def
  by (elim disjE conjE) (simp_all add: dispatch_ops)

text \<open>
  C5, as the code has it. For a \<open>JMP\<close>, and for a \<open>JZ\<close> or \<open>JNZ\<close> whose condition holds,
  executed by the loop of \<open>cpu_execute\<close>: a target outside \<open>[0, program.length]\<close> fails
  with \<open>BranchOutOfRange\<close>, and a target equal to \<open>program.length\<close> is legal and ends
  the loop. A \<open>JZ\<close> or \<open>JNZ\<close> whose condition does not hold falls through to
  \<open>pc + 1\<close>, whatever its target is.
\<close>

theorem branch_target_checked:
  assumes "pc (cpu st) < length p" and "step_count st < CPU_MAX_STEPS"
  shows "(branch_taken (p ! pc (cpu st)) (cpu st) \<longrightarrow>
           (target (p ! pc (cpu st)) < 0 \<or> int (length p) < target (p ! pc (cpu st)) \<longrightarrow>
              cpu_loop p st = Inl (BranchOutOfRange, st\<lparr>step_count := step_count st + 1\<rparr>))
         \<and> (target (p ! pc (cpu st)) = int (length p) \<longrightarrow>
              cpu_loop p st =
                Inr \<lparr>cpu = (cpu st)\<lparr>pc := length p\<rparr>, last_dst = last_dst st,
                     step_count = step_count st + 1\<rparr>))
     \<and> (branch_not_taken (p ! pc (cpu st)) (cpu st) \<longrightarrow>
           cpu_loop p st =
             cpu_loop p \<lparr>cpu = (cpu st)\<lparr>pc := pc (cpu st) + 1\<rparr>, last_dst = last_dst st,
                         step_count = step_count st + 1\<rparr>)"
proof (intro conjI impI)
  assume t: "branch_taken (p ! pc (cpu st)) (cpu st)"
    and bad: "target (p ! pc (cpu st)) < 0 \<or> int (length p) < target (p ! pc (cpu st))"
  have "dispatch (p ! pc (cpu st)) (length p) (cpu st) (last_dst st) = Inl BranchOutOfRange"
    using bad by (simp add: dispatch_taken [OF t])
  then show "cpu_loop p st = Inl (BranchOutOfRange, st\<lparr>step_count := step_count st + 1\<rparr>)"
    by (rule cpu_loop_fail [OF assms])
next
  assume t: "branch_taken (p ! pc (cpu st)) (cpu st)"
    and halt: "target (p ! pc (cpu st)) = int (length p)"
  have "dispatch (p ! pc (cpu st)) (length p) (cpu st) (last_dst st) =
      Inr ((cpu st)\<lparr>pc := length p\<rparr>, last_dst st, True)"
    using halt by (simp add: dispatch_taken [OF t])
  from cpu_loop_step [OF assms this]
  show "cpu_loop p st =
      Inr \<lparr>cpu = (cpu st)\<lparr>pc := length p\<rparr>, last_dst = last_dst st,
           step_count = step_count st + 1\<rparr>"
    by (simp add: cpu_loop_exit)
next
  assume nt: "branch_not_taken (p ! pc (cpu st)) (cpu st)"
  from cpu_loop_step [OF assms dispatch_not_taken [OF nt]]
  show "cpu_loop p st =
      cpu_loop p \<lparr>cpu = (cpu st)\<lparr>pc := pc (cpu st) + 1\<rparr>, last_dst = last_dst st,
                  step_count = step_count st + 1\<rparr>"
    by simp
qed

text \<open>
  In the one-instruction programs \<open>[JMP 2]\<close> and \<open>[JMP 1]\<close>, run from the initial
  state: the first fails with \<open>BranchOutOfRange\<close>, the second ends the loop. In
  \<open>[JZ 5]\<close> the branch is not taken and the loop goes on at the index 1.
\<close>

theorem branch_target_checked_witness:
  "cpu_loop [jmp_to 2] (cpu_init None) =
     Inl (BranchOutOfRange, (cpu_init None)\<lparr>step_count := 1\<rparr>)
   \<and> cpu_loop [jmp_to 1] (cpu_init None) =
     Inr \<lparr>cpu = (cpu (cpu_init None))\<lparr>pc := 1\<rparr>, last_dst = 0, step_count = 1\<rparr>
   \<and> cpu_loop [jz_far] (cpu_init None) =
     cpu_loop [jz_far] \<lparr>cpu = (cpu (cpu_init None))\<lparr>pc := 1\<rparr>, last_dst = 0, step_count = 1\<rparr>"
proof -
  have pre: "pc (cpu (cpu_init None)) < length [i]" "step_count (cpu_init None) < CPU_MAX_STEPS"
    for i :: IRInstr
    by (simp_all add: cpu_init_def CPU_MAX_STEPS_def)
  have t: "branch_taken (jmp_to k) (cpu (cpu_init None))" for k
    by (simp add: branch_taken_def jmp_to_def)
  have nt: "branch_not_taken jz_far (cpu (cpu_init None))"
    by (simp add: branch_not_taken_def jz_far_def cpu_init_def)
  show ?thesis
    using branch_target_checked [OF pre, of "jmp_to 2"]
      branch_target_checked [OF pre, of "jmp_to 1"]
      branch_target_checked [OF pre, of jz_far] t nt
    by (simp add: jmp_to_def cpu_init_def)
qed

lemma cpu_loop_run:
  "pc (cpu st) < length p \<Longrightarrow> step_count st < CPU_MAX_STEPS \<Longrightarrow>
   cpu_loop p st =
     (case dispatch (p ! pc (cpu st)) (length p) (cpu st) (last_dst st) of
        Inl e \<Rightarrow> Inl (e, st\<lparr>step_count := step_count st + 1\<rparr>)
      | Inr (c, ld, jumped) \<Rightarrow>
          cpu_loop p \<lparr>cpu = (if jumped then c else c\<lparr>pc := pc c + 1\<rparr>), last_dst = ld,
                      step_count = step_count st + 1\<rparr>)"
  by (simp add: cpu_loop.simps [of p st] split: sum.split)

text \<open>
  C6. An instruction \<open>LOAD_CONST\<close>, \<open>JMP\<close>, \<open>JZ\<close>, \<open>JNZ\<close>, \<open>LOAD\<close> or \<open>STORE\<close> that
  the switch of \<open>cpu_execute\<close> executes leaves the four flags as they were, also after
  the increment of \<open>pc\<close> that follows the switch: only \<open>ADD\<close>, \<open>SUB\<close>, \<open>MUL\<close>, \<open>DIV\<close>
  and \<open>CMP\<close> write them.
\<close>

theorem flags_frame:
  assumes "op i \<in> {IR_LOAD_CONST, IR_JMP, IR_JZ, IR_JNZ, IR_LOAD, IR_STORE}"
    and "dispatch i n c ld = Inr (c', ld', jumped)"
  shows "flags c' = flags c \<and> flags (c'\<lparr>pc := pc c' + 1\<rparr>) = flags c"
proof -
  from assms(1) consider "op i = IR_LOAD_CONST" | "op i = IR_JMP" | "op i = IR_JZ"
    | "op i = IR_JNZ" | "op i = IR_LOAD" | "op i = IR_STORE"
    by auto
  then show ?thesis
  proof cases
    case 1 with assms(2) show ?thesis
      by (auto simp: dispatch_ops split: if_splits)
  next
    case 2 with assms(2) show ?thesis
      by (auto simp: dispatch_ops split: if_splits)
  next
    case 3 with assms(2) show ?thesis
      by (auto simp: dispatch_ops split: if_splits)
  next
    case 4 with assms(2) show ?thesis
      by (auto simp: dispatch_ops split: if_splits)
  next
    case 5 with assms(2) show ?thesis
      by (auto simp: dispatch_ops split: if_splits sum.splits)
  next
    case 6 with assms(2) show ?thesis
      by (auto simp: dispatch_ops split: if_splits prod.splits option.splits)
  qed
qed

text \<open>
  \<open>LOAD_CONST r1, 5\<close> in a CPU whose flags are Z=1 N=0 C=1 V=0: the register is
  written and the flags stay.
\<close>

theorem flags_frame_witness:
  "dispatch (load_const 1 5) 3
       \<lparr>regs = replicate 32 0, flags = \<lparr>Z = 1, N = 0, C = 1, V = 0\<rparr>, pc = 0, mem = None\<rparr> 0
     = Inr (\<lparr>regs = (replicate 32 0)[1 := 5], flags = \<lparr>Z = 1, N = 0, C = 1, V = 0\<rparr>,
             pc = 0, mem = None\<rparr>, 1, False)
   \<and> flags \<lparr>regs = (replicate 32 0)[1 := 5], flags = \<lparr>Z = 1, N = 0, C = 1, V = 0\<rparr>,
             pc = 0, mem = None\<rparr> = \<lparr>Z = 1, N = 0, C = 1, V = 0\<rparr>"
proof -
  have o: "op (load_const 1 5) \<in> {IR_LOAD_CONST, IR_JMP, IR_JZ, IR_JNZ, IR_LOAD, IR_STORE}"
    by (simp add: load_const_def)
  have d: "dispatch (load_const 1 5) 3
       \<lparr>regs = replicate 32 0, flags = \<lparr>Z = 1, N = 0, C = 1, V = 0\<rparr>, pc = 0, mem = None\<rparr> 0
     = Inr (\<lparr>regs = (replicate 32 0)[1 := 5], flags = \<lparr>Z = 1, N = 0, C = 1, V = 0\<rparr>,
             pc = 0, mem = None\<rparr>, 1, False)"
    by (simp add: dispatch_ops load_const_def check_reg_def CPU_MAX_REGS_def)
  from flags_frame [OF o d] d show ?thesis by simp
qed

lemma jmp0_loops:
  "pc (cpu st) = 0 \<Longrightarrow> step_count st \<le> CPU_MAX_STEPS \<Longrightarrow>
   cpu_status (cpu_loop [jmp0] st) = Some InfiniteLoopGuard"
proof (induction "CPU_MAX_STEPS - step_count st" arbitrary: st)
  case 0
  then show ?case by (simp add: cpu_loop_guard cpu_status_def)
next
  case (Suc k)
  then have lt: "step_count st < CPU_MAX_STEPS" by simp
  have d: "dispatch ([jmp0] ! pc (cpu st)) (length [jmp0]) (cpu st) (last_dst st) =
      Inr ((cpu st)\<lparr>pc := 0\<rparr>, last_dst st, True)"
    using Suc.prems(1) by (simp add: dispatch_ops jmp0_def jmp_to_def check_target_def)
  have "cpu_loop [jmp0] st =
      cpu_loop [jmp0] \<lparr>cpu = (cpu st)\<lparr>pc := 0\<rparr>, last_dst = last_dst st,
                        step_count = step_count st + 1\<rparr>"
    using cpu_loop_step [OF _ lt d] Suc.prems(1) by simp
  moreover have "cpu_status (cpu_loop [jmp0] \<lparr>cpu = (cpu st)\<lparr>pc := 0\<rparr>, last_dst = last_dst st,
                        step_count = step_count st + 1\<rparr>) = Some InfiniteLoopGuard"
    using Suc.hyps(2) lt by (intro Suc.hyps(1)) simp_all
  ultimately show ?case by simp
qed

text \<open>
  C7. \<open>cpu_execute\<close> terminates on every program: \<open>cpu_loop\<close> is a total function,
  by the measure \<open>CPU_MAX_STEPS + 1 - step_count\<close> of its termination proof. At every
  exit the step counter is at most \<open>CPU_MAX_STEPS = 1000000\<close>, so that at most that many
  instructions were dispatched, but for the failure \<open>InfiniteLoopGuard\<close>, which is
  returned exactly when the counter has passed \<open>CPU_MAX_STEPS\<close>. The program that jumps
  to itself ends so.
\<close>

theorem cpu_execute_bounded:
  "(case cpu_execute p m of
      Inl (e, st) \<Rightarrow>
        (if e = InfiniteLoopGuard then step_count st = CPU_MAX_STEPS + 1
         else step_count st \<le> CPU_MAX_STEPS)
    | Inr st \<Rightarrow> step_count st \<le> CPU_MAX_STEPS)
   \<and> CPU_MAX_STEPS = 1000000
   \<and> cpu_status (cpu_execute [jmp0] m) = Some InfiniteLoopGuard"
proof -
  have "steps_bounded (cpu_execute p m)"
  proof (cases "length p = 0")
    case True
    then show ?thesis
      by (simp add: cpu_execute_def steps_bounded_def cpu_init_def)
  next
    case False
    have "step_count (cpu_init m) \<le> CPU_MAX_STEPS" by (simp add: cpu_init_def)
    from cpu_loop_steps_bounded [OF this, of p] False show ?thesis
      by (simp add: cpu_execute_def)
  qed
  moreover have "cpu_status (cpu_execute [jmp0] m) = Some InfiniteLoopGuard"
    by (simp add: cpu_execute_def jmp0_loops cpu_init_def)
  ultimately show ?thesis
    by (simp add: steps_bounded_def CPU_MAX_STEPS_def)
qed

lemma run_simps:
  "cpu_init m = \<lparr>cpu = \<lparr>regs = replicate 32 0, flags = \<lparr>Z = 0, N = 0, C = 0, V = 0\<rparr>,
             pc = 0, mem = m\<rparr>, last_dst = 0, step_count = 0\<rparr>"
  "CPU_MAX_STEPS = 1000000"
  by (simp_all add: cpu_init_def CPU_MAX_REGS_def CPU_MAX_STEPS_def)

text \<open>
  The claim C5 as it is stated fails on the program \<open>[JZ 5]\<close>: the target is outside
  \<open>[0, 1]\<close>, the flag Z is 0, the branch is not taken and the run succeeds.
\<close>

theorem untaken_branch_unchecked:
  "op jz_far = IR_JZ \<and> int (length [jz_far]) < target jz_far
   \<and> cpu_status (cpu_execute [jz_far] None) = None"
  by (simp add: cpu_execute_def cpu_status_def cpu_loop_run cpu_loop_exit dispatch_ops jz_far_def
      run_simps(1) CPU_MAX_STEPS_def)

section \<open>Code generator: the emitted program\<close>

lemma codegen_expr_lower:
  "codegen_expr cg t =
     (next_reg cg, \<lparr>prog = prog cg @ lower t (next_reg cg), next_reg = next_reg cg + int (leaves t)\<rparr>)"
proof (induction t arbitrary: cg)
  case (NODE_NUMBER val)
  show ?case
    by (simp add: alloc_reg_def ir_program_append_def load_const_def)
next
  case (NODE_BINARY_OP bop left right)
  show ?case
    by (simp add: NODE_BINARY_OP.IH ir_program_append_def alu_instr_def add.assoc)
qed

lemma length_lower: "length (lower t r) = 2 * leaves t - 1"
  and leaves_pos: "0 < leaves t"
  by (induction t arbitrary: r) auto

text \<open>
  C2. \<open>codegen_expr\<close> lowers a tree post-order. A \<open>Number\<close> leaf takes the register
  \<open>r\<close> of the counter, emits \<open>LoadConst r, value\<close>, returns \<open>r\<close> and advances the counter
  by one. A \<open>BinaryOp\<close> node lowers its left child to \<open>lr\<close>, then its right child to
  \<open>rr\<close>, emits the mapped opcode with \<open>dst = lr\<close> and \<open>src = rr\<close>, and returns \<open>lr\<close>.
  On every tree the returned register is the counter at the call, the counter grows by
  the number of leaves, and the program grows at its end by the lowering of the tree.
  For the tree of \<open>3+4\<close> the program is \<open>LoadConst r0, 3; LoadConst r1, 4; Add r0, r1\<close>
  and the returned register is \<open>r0\<close>.
\<close>

theorem codegen_expr_post_order:
  "codegen_expr cg (NODE_NUMBER val) =
     (next_reg cg,
      \<lparr>prog = prog cg @ [\<lparr>op = IR_LOAD_CONST, dst = next_reg cg, src = 0, imm = val,
                           target = 0, addr = 0\<rparr>],
       next_reg = next_reg cg + 1\<rparr>)
   \<and> codegen_expr cg (NODE_BINARY_OP bop left right) =
     (case codegen_expr cg left of
        (lr, cg1) \<Rightarrow>
          (case codegen_expr cg1 right of
             (rr, cg2) \<Rightarrow>
               (lr,
                \<lparr>prog = prog cg2 @ [\<lparr>op = ast_op_to_ir bop, dst = lr, src = rr, imm = 0,
                                      target = 0, addr = 0\<rparr>],
                 next_reg = next_reg cg2\<rparr>)))
   \<and> ast_op_to_ir OP_ADD = IR_ADD \<and> ast_op_to_ir OP_SUB = IR_SUB
   \<and> ast_op_to_ir OP_MUL = IR_MUL \<and> ast_op_to_ir OP_DIV = IR_DIV
   \<and> fst (codegen_expr cg t) = next_reg cg
   \<and> next_reg (snd (codegen_expr cg t)) = next_reg cg + int (leaves t)
   \<and> next_reg cg < next_reg (snd (codegen_expr cg t))
   \<and> prog (snd (codegen_expr cg t)) = prog cg @ lower t (next_reg cg)
   \<and> main_codegen three_plus_four =
     (0,
      \<lparr>prog = [\<lparr>op = IR_LOAD_CONST, dst = 0, src = 0, imm = 3, target = 0, addr = 0\<rparr>,
               \<lparr>op = IR_LOAD_CONST, dst = 1, src = 0, imm = 4, target = 0, addr = 0\<rparr>,
               \<lparr>op = IR_ADD, dst = 0, src = 1, imm = 0, target = 0, addr = 0\<rparr>],
       next_reg = 2\<rparr>)"
proof -
  have leaf: "codegen_expr cg (NODE_NUMBER val) =
     (next_reg cg,
      \<lparr>prog = prog cg @ [\<lparr>op = IR_LOAD_CONST, dst = next_reg cg, src = 0, imm = val,
                           target = 0, addr = 0\<rparr>],
       next_reg = next_reg cg + 1\<rparr>)"
    by (simp add: alloc_reg_def ir_program_append_def)
  have node: "codegen_expr cg (NODE_BINARY_OP bop left right) =
     (case codegen_expr cg left of
        (lr, cg1) \<Rightarrow>
          (case codegen_expr cg1 right of
             (rr, cg2) \<Rightarrow>
               (lr,
                \<lparr>prog = prog cg2 @ [\<lparr>op = ast_op_to_ir bop, dst = lr, src = rr, imm = 0,
                                      target = 0, addr = 0\<rparr>],
                 next_reg = next_reg cg2\<rparr>)))"
    by (simp add: ir_program_append_def split: prod.split)
  have ex: "main_codegen three_plus_four =
     (0,
      \<lparr>prog = [\<lparr>op = IR_LOAD_CONST, dst = 0, src = 0, imm = 3, target = 0, addr = 0\<rparr>,
               \<lparr>op = IR_LOAD_CONST, dst = 1, src = 0, imm = 4, target = 0, addr = 0\<rparr>,
               \<lparr>op = IR_ADD, dst = 0, src = 1, imm = 0, target = 0, addr = 0\<rparr>],
       next_reg = 2\<rparr>)"
    by (simp add: main_codegen_def three_plus_four_def codegen_init_def ir_program_init_def
        alloc_reg_def ir_program_append_def)
  show ?thesis
    unfolding leaf node ex
    using leaves_pos [of t] by (simp add: codegen_expr_lower)
qed

section \<open>Compiled programs on the CPU\<close>

lemma mod64_mod32: "(x::int) mod 18446744073709551616 mod 4294967296 = x mod 4294967296"
  by (rule mod_mod_cancel) simp

lemma ucast_mul_32: "(ucast ((ucast a :: 64 word) * (ucast (b::word_t) :: 64 word)) :: word_t) = a * b"
  by transfer (simp add: take_bit_eq_mod mod64_mod32 mod_mult_eq)

lemma alu_fst:
  "fst (alu_add a b f) = a + b" "fst (alu_sub a b f) = a - b"
  "fst (alu_mul a b f) = a * b" "fst (alu_div a b f) = a div b"
  by (simp_all add: alu_add_eq alu_sub_eq alu_mul_def alu_div_def Let_def ucast_mul_32)

lemma word_of_int_nz:
  assumes "0 < b" "b < 2 ^ 32"
  shows "(word_of_int b :: word_t) \<noteq> 0"
proof
  assume "(word_of_int b :: word_t) = 0"
  then have "(2 ^ 32 :: int) dvd b" by (simp add: word_of_int_eq_0_iff)
  with assms(1) have "2 ^ 32 \<le> b" by (rule zdvd_imp_le [rotated])
  with assms(2) show False by simp
qed

lemma word_div_of_int:
  assumes "0 \<le> a" "a < 2 ^ 32" "0 < b" "b < 2 ^ 32"
  shows "(word_of_int a :: word_t) div word_of_int b = word_of_int (a sdiv b)"
proof -
  have ua: "uint (word_of_int a :: word_t) = a" and ub: "uint (word_of_int b :: word_t) = b"
    using assms by (simp_all add: uint_word_of_int_eq take_bit_int_eq_self)
  have "a sdiv b = a div b"
    using assms(1,3) by (cases "a = 0") (simp_all add: signed_divide_int_def)
  then show ?thesis
    by (simp add: word_div_def ua ub)
qed

lemma check_reg_ok: "0 \<le> r \<Longrightarrow> r < 32 \<Longrightarrow> check_reg r = 0"
  by (simp add: check_reg_def CPU_MAX_REGS_def)

lemma step_load_const:
  assumes "pc (cpu st) < length p" and "step_count st < CPU_MAX_STEPS"
    and "p ! pc (cpu st) = load_const r v" and "0 \<le> r" and "r < 32"
  shows "cpu_loop p st =
     cpu_loop p \<lparr>cpu = (cpu st)\<lparr>regs := (regs (cpu st))[nat r := word_of_int v],
                                  pc := pc (cpu st) + 1\<rparr>,
                 last_dst = r, step_count = step_count st + 1\<rparr>"
proof -
  have "dispatch (p ! pc (cpu st)) (length p) (cpu st) (last_dst st) =
      Inr ((cpu st)\<lparr>regs := (regs (cpu st))[nat r := word_of_int v]\<rparr>, r, False)"
    unfolding assms(3) using assms(4,5)
    by (simp add: dispatch_ops load_const_def check_reg_ok)
  from cpu_loop_step [OF assms(1,2) this] show ?thesis by simp
qed

lemma step_alu:
  assumes "pc (cpu st) < length p" and "step_count st < CPU_MAX_STEPS"
    and "p ! pc (cpu st) = alu_instr (ast_op_to_ir bop) d s"
    and "0 \<le> d" and "d < 32" and "0 \<le> s" and "s < 32"
    and "bop = OP_DIV \<Longrightarrow> regs (cpu st) ! nat s \<noteq> 0"
  shows "\<exists>f. cpu_loop p st =
     cpu_loop p \<lparr>cpu = (cpu st)\<lparr>regs := (regs (cpu st))
                                    [nat d := word_op bop (regs (cpu st) ! nat d)
                                                (regs (cpu st) ! nat s)],
                                  flags := f, pc := pc (cpu st) + 1\<rparr>,
                 last_dst = d, step_count = step_count st + 1\<rparr>"
proof -
  have cr: "check_reg d = 0" "check_reg s = 0"
    using assms(4-7) by (simp_all add: check_reg_ok)
  have "\<exists>f. dispatch (p ! pc (cpu st)) (length p) (cpu st) (last_dst st) =
      Inr ((cpu st)\<lparr>regs := (regs (cpu st))
              [nat d := word_op bop (regs (cpu st) ! nat d) (regs (cpu st) ! nat s)],
            flags := f\<rparr>, d, False)"
    unfolding assms(3)
  proof (cases bop)
    case OP_DIV
    with assms(8) show "\<exists>f. dispatch (alu_instr (ast_op_to_ir bop) d s) (length p) (cpu st) (last_dst st) =
      Inr ((cpu st)\<lparr>regs := (regs (cpu st))
              [nat d := word_op bop (regs (cpu st) ! nat d) (regs (cpu st) ! nat s)],
            flags := f\<rparr>, d, False)"
      by (simp add: dispatch_ops alu_instr_def cr exec_alu_ok alu_fst) blast
  qed (simp_all add: dispatch_ops alu_instr_def cr exec_alu_ok alu_fst, blast+)
  then obtain f where "dispatch (p ! pc (cpu st)) (length p) (cpu st) (last_dst st) =
      Inr ((cpu st)\<lparr>regs := (regs (cpu st))
              [nat d := word_op bop (regs (cpu st) ! nat d) (regs (cpu st) ! nat s)],
            flags := f\<rparr>, d, False)" ..
  from cpu_loop_step [OF assms(1,2) this] show ?thesis by auto
qed

lemma eval_binary:
  assumes "eval (NODE_BINARY_OP bop l r) = Inr v"
    and "div_operands_u32 (NODE_BINARY_OP bop l r)"
  shows "\<exists>a b. eval l = Inr a \<and> eval r = Inr b
     \<and> word_op bop (word_of_int a) (word_of_int b) = word_of_int v
     \<and> (bop = OP_DIV \<longrightarrow> (word_of_int b :: word_t) \<noteq> 0)"
proof -
  from assms(1) obtain a b where ab: "eval l = Inr a" "eval r = Inr b"
    by (auto split: sum.splits)
  show ?thesis
  proof (cases bop)
    case OP_DIV
    with assms ab have b0: "b \<noteq> 0" and v: "v = a sdiv b"
      and rng: "0 \<le> a" "a < 2 ^ 32" "0 \<le> b" "b < 2 ^ 32"
      by (auto split: if_splits)
    from b0 rng have bpos: "0 < b" by simp
    show ?thesis
      using ab OP_DIV v word_div_of_int [OF rng(1,2) bpos rng(4)] word_of_int_nz [OF bpos rng(4)]
      by simp
  qed (use assms ab in auto)
qed

lemma exec_lower:
  assumes "eval t = Inr v" and "div_operands_u32 t"
    and "0 \<le> r" and "r + int (leaves t) \<le> 32"
    and "p = pre @ lower t r @ post"
    and "pc (cpu st) = length pre" and "length (regs (cpu st)) = 32"
    and "step_count st + length (lower t r) \<le> CPU_MAX_STEPS"
  shows "\<exists>st'. cpu_loop p st = cpu_loop p st' \<and> computed r v (length (lower t r)) st st'"
  using assms
proof (induction t arbitrary: v r pre post st)
  case (NODE_NUMBER val)
  let ?st' = "\<lparr>cpu = (cpu st)\<lparr>regs := (regs (cpu st))[nat r := word_of_int val],
                                  pc := pc (cpu st) + 1\<rparr>,
                 last_dst = r, step_count = step_count st + 1\<rparr>"
  have v: "v = val" using NODE_NUMBER.prems(1) by simp
  have r32: "r < 32" using NODE_NUMBER.prems(4) by simp
  have inside: "pc (cpu st) < length p" and at: "p ! pc (cpu st) = load_const r val"
    using NODE_NUMBER.prems(5,6) by simp_all
  have steps: "step_count st < CPU_MAX_STEPS"
    using NODE_NUMBER.prems(8) by simp
  have "cpu_loop p st = cpu_loop p ?st'"
    by (rule step_load_const [OF inside steps at NODE_NUMBER.prems(3) r32])
  moreover have "computed r v (length (lower (NODE_NUMBER val) r)) st ?st'"
    using NODE_NUMBER.prems(3,7) r32 by (simp add: computed_def v)
  ultimately show ?case by blast
next
  case (NODE_BINARY_OP bop left right)
  define r' where "r' = r + int (leaves left)"
  define kl where "kl = length (lower left r)"
  define kr where "kr = length (lower right r')"
  define opi where "opi = alu_instr (ast_op_to_ir bop) r r'"
  have code: "lower (NODE_BINARY_OP bop left right) r = lower left r @ lower right r' @ [opi]"
    by (simp add: r'_def opi_def)
  have len: "length (lower (NODE_BINARY_OP bop left right) r) = kl + kr + 1"
    unfolding code by (simp add: kl_def kr_def)
  from eval_binary [OF NODE_BINARY_OP.prems(1,2)]
  obtain a b where ea: "eval left = Inr a" and eb: "eval right = Inr b"
    and w: "word_op bop (word_of_int a) (word_of_int b) = word_of_int v"
    and nz: "bop = OP_DIV \<longrightarrow> (word_of_int b :: word_t) \<noteq> 0"
    by blast
  have dl: "div_operands_u32 left" and dr: "div_operands_u32 right"
    using NODE_BINARY_OP.prems(2) by simp_all
  have lpos: "0 < leaves left" "0 < leaves right"
    by (rule leaves_pos)+
  have r0: "0 \<le> r" by (rule NODE_BINARY_OP.prems(3))
  have rl: "r + int (leaves left) \<le> 32" and r'0: "0 \<le> r'"
    and rr: "r' + int (leaves right) \<le> 32" and rlt: "r < r'" and r'32: "r' < 32"
    and r32: "r < 32"
    using NODE_BINARY_OP.prems(3,4) lpos by (simp_all add: r'_def)
  have p1: "p = pre @ lower left r @ (lower right r' @ [opi] @ post)"
    using NODE_BINARY_OP.prems(5) unfolding code by simp
  have s1: "step_count st + length (lower left r) \<le> CPU_MAX_STEPS"
    using NODE_BINARY_OP.prems(8) unfolding len by (simp add: kl_def)
  from NODE_BINARY_OP.IH(1) [OF ea dl r0 rl p1 NODE_BINARY_OP.prems(6,7) s1]
  obtain st1 where run1: "cpu_loop p st = cpu_loop p st1" and c1: "computed r a kl st st1"
    unfolding kl_def by blast
  have p2: "p = (pre @ lower left r) @ lower right r' @ ([opi] @ post)"
    using p1 by simp
  have pc1: "pc (cpu st1) = length (pre @ lower left r)"
    and regs1: "length (regs (cpu st1)) = 32"
    and s2: "step_count st1 + length (lower right r') \<le> CPU_MAX_STEPS"
    using c1 NODE_BINARY_OP.prems(6,7,8) unfolding len
    by (simp_all add: computed_def kl_def kr_def)
  from NODE_BINARY_OP.IH(2) [OF eb dr r'0 rr p2 pc1 regs1 s2]
  obtain st2 where run2: "cpu_loop p st1 = cpu_loop p st2" and c2: "computed r' b kr st1 st2"
    unfolding kr_def by blast
  have nr: "nat r < nat r'" using rlt r0 by simp
  have pc2: "pc (cpu st2) = length pre + kl + kr"
    and regs2: "length (regs (cpu st2)) = 32"
    and steps2: "step_count st2 = step_count st + kl + kr"
    and mem2: "mem (cpu st2) = mem (cpu st)"
    and va: "regs (cpu st2) ! nat r = word_of_int a"
    and vb: "regs (cpu st2) ! nat r' = word_of_int b"
    using c1 c2 nr NODE_BINARY_OP.prems(6,7) by (simp_all add: computed_def)
  have below: "\<forall>j<nat r. regs (cpu st2) ! j = regs (cpu st) ! j"
  proof (intro allI impI)
    fix j
    assume j: "j < nat r"
    with nr have "j < nat r'" by (rule less_trans [rotated])
    with c1 c2 j show "regs (cpu st2) ! j = regs (cpu st) ! j"
      by (simp add: computed_def)
  qed
  have inside: "pc (cpu st2) < length p"
    and at: "p ! pc (cpu st2) = alu_instr (ast_op_to_ir bop) r r'"
    unfolding pc2 NODE_BINARY_OP.prems(5) code
    by (simp_all add: kl_def kr_def nth_append opi_def)
  have steps: "step_count st2 < CPU_MAX_STEPS"
    using NODE_BINARY_OP.prems(8) unfolding len steps2 by simp
  have nz2: "bop = OP_DIV \<Longrightarrow> regs (cpu st2) ! nat r' \<noteq> 0"
    using nz vb by simp
  from step_alu [OF inside steps at r0 r32 r'0 r'32 nz2]
  obtain f where run3: "cpu_loop p st2 =
     cpu_loop p \<lparr>cpu = (cpu st2)\<lparr>regs := (regs (cpu st2))
                                    [nat r := word_op bop (regs (cpu st2) ! nat r)
                                                (regs (cpu st2) ! nat r')],
                                  flags := f, pc := pc (cpu st2) + 1\<rparr>,
                 last_dst = r, step_count = step_count st2 + 1\<rparr>"
    by blast
  define st3 where "st3 = \<lparr>cpu = (cpu st2)\<lparr>regs := (regs (cpu st2))
                                    [nat r := word_op bop (regs (cpu st2) ! nat r)
                                                (regs (cpu st2) ! nat r')],
                                  flags := f, pc := pc (cpu st2) + 1\<rparr>,
                 last_dst = r, step_count = step_count st2 + 1\<rparr>"
  have "cpu_loop p st = cpu_loop p st3"
    using run1 run2 run3 by (simp add: st3_def)
  moreover have "computed r v (length (lower (NODE_BINARY_OP bop left right) r)) st st3"
    unfolding len computed_def st3_def
    using pc2 regs2 steps2 mem2 below r0 r32 NODE_BINARY_OP.prems(6,7)
    by (simp add: va vb w)
  ultimately show ?case by blast
qed

lemma main_codegen_lower:
  "main_codegen t = (0, \<lparr>prog = lower t 0, next_reg = int (leaves t)\<rparr>)"
  by (simp add: main_codegen_def codegen_expr_lower codegen_init_def ir_program_init_def)

lemma lower_nonempty: "lower t r \<noteq> []"
  by (cases t) simp_all

text \<open>
  C1, as the code has it. For every expression tree with at most 32 \<open>Number\<close> leaves
  whose reference evaluation succeeds with the value \<open>v\<close>, and in which both operands
  of every division have reference values in \<open>[0, 2\<^sup>3\<^sup>2)\<close>: \<open>cpu_execute\<close> on the program
  of \<open>codegen_expr\<close> terminates normally, the last register written is the register that
  \<open>codegen_expr\<close> returned, and its final value is \<open>v mod 2\<^sup>3\<^sup>2\<close>. The value \<open>v\<close> itself
  need not fit in 32 bits.
\<close>

theorem compiled_agrees_with_eval:
  assumes "eval t = Inr v" and "leaves t \<le> 32" and "div_operands_u32 t"
  shows "\<exists>st. cpu_execute (prog (snd (main_codegen t))) m = Inr st
     \<and> last_dst st = fst (main_codegen t)
     \<and> final_reg st = word_of_int v
     \<and> uint (final_reg st) = v mod 2 ^ 32"
proof -
  let ?p = "lower t 0"
  have len: "length ?p \<le> 63"
    using assms(2) by (simp add: length_lower)
  have p: "?p = [] @ lower t 0 @ []" by simp
  have r: "(0::int) \<le> 0" "0 + int (leaves t) \<le> 32"
    using assms(2) by simp_all
  have st0: "pc (cpu (cpu_init m)) = length ([] :: IRInstr list)"
    "length (regs (cpu (cpu_init m))) = 32"
    "step_count (cpu_init m) + length (lower t 0) \<le> CPU_MAX_STEPS"
    using len by (simp_all add: cpu_init_def CPU_MAX_REGS_def CPU_MAX_STEPS_def)
  from exec_lower [OF assms(1,3) r p st0]
  obtain st where run: "cpu_loop ?p (cpu_init m) = cpu_loop ?p st"
    and c: "computed 0 v (length ?p) (cpu_init m) st"
    by blast
  from c have "pc (cpu st) = length ?p"
    by (simp add: computed_def cpu_init_def)
  then have "cpu_loop ?p st = Inr st"
    by (simp add: cpu_loop_exit)
  with run have "cpu_execute ?p m = Inr st"
    by (simp add: cpu_execute_def lower_nonempty)
  moreover from c have "last_dst st = 0" and fr: "final_reg st = word_of_int v"
    by (simp_all add: computed_def final_reg_def)
  moreover have "uint (final_reg st) = v mod 2 ^ 32"
    unfolding fr by (simp add: uint_word_of_int_eq take_bit_eq_mod)
  ultimately show ?thesis
    by (simp add: main_codegen_lower)
qed

text \<open>The tree \<open>(20 - 6) / 2\<close>: the evaluator and the CPU both give 7.\<close>

theorem compiled_agrees_with_eval_witness:
  "eval quotient_tree = Inr 7 \<and> leaves quotient_tree \<le> 32 \<and> div_operands_u32 quotient_tree
   \<and> (\<exists>st. cpu_execute (prog (snd (main_codegen quotient_tree))) None = Inr st
        \<and> last_dst st = 0 \<and> final_reg st = 7 \<and> uint (final_reg st) = 7)"
proof -
  have e: "eval quotient_tree = Inr 7" by (simp add: quotient_tree_def)
  have l: "leaves quotient_tree \<le> 32" by (simp add: quotient_tree_def)
  have d: "div_operands_u32 quotient_tree" by (simp add: quotient_tree_def)
  from compiled_agrees_with_eval [OF e l d, of None] e l d show ?thesis
    by (simp add: main_codegen_lower)
qed

section \<open>More registers than the CPU has\<close>

lemma first_bad_uses:
  "first_bad_reg p < length p \<Longrightarrow> uses_bad_reg (p ! first_bad_reg p)"
  unfolding first_bad_reg_def
  using nth_length_takeWhile [of "\<lambda>i. \<not> uses_bad_reg i" p] by simp

lemma before_first_bad:
  "j < first_bad_reg p \<Longrightarrow> \<not> uses_bad_reg (p ! j)"
  unfolding first_bad_reg_def
  using takeWhile_nth [of j "\<lambda>i. \<not> uses_bad_reg i" p]
    nth_mem [of j "takeWhile (\<lambda>i. \<not> uses_bad_reg i) p"]
    set_takeWhileD [of "p ! j" "\<lambda>i. \<not> uses_bad_reg i" p]
  by auto

lemma check_reg_range: "check_reg r = 0 \<longleftrightarrow> reg_in_range r"
  by (auto simp: check_reg_def CPU_MAX_REGS_def reg_in_range_def)

lemma reg_in_range_nat: "reg_in_range r \<Longrightarrow> nat r < 32"
  unfolding reg_in_range_def by arith

lemma arith_cases:
  assumes "arith_instr i"
  obtains "op i = IR_LOAD_CONST" | "op i = IR_ADD" | "op i = IR_SUB"
    | "op i = IR_MUL" | "op i = IR_DIV"
  using assms by (auto simp: arith_instr_def)

lemma dispatch_arith_bad:
  assumes "arith_instr i" and "uses_bad_reg i"
  shows "dispatch i n c ld = Inl RegisterOutOfRange"
  using assms(1)
proof (cases rule: arith_cases)
  case 1 with assms(2) show ?thesis
    by (simp add: dispatch_ops uses_bad_reg_def check_reg_range)
next
  case 2 with assms(2) show ?thesis
    by (auto simp: dispatch_ops uses_bad_reg_def exec_alu_def check_reg_range)
next
  case 3 with assms(2) show ?thesis
    by (auto simp: dispatch_ops uses_bad_reg_def exec_alu_def check_reg_range)
next
  case 4 with assms(2) show ?thesis
    by (auto simp: dispatch_ops uses_bad_reg_def exec_alu_def check_reg_range)
next
  case 5 with assms(2) show ?thesis
    by (auto simp: dispatch_ops uses_bad_reg_def check_reg_range)
qed

text \<open>
  One instruction of the code generator with its registers in range, in a CPU whose
  registers are \<open>R\<close>: a \<open>DIV\<close> with the divisor 0 fails, and every other instruction
  has the effect that the specification gives it.
\<close>

lemma dispatch_arith_step:
  assumes "arith_instr i" and "\<not> uses_bad_reg i"
    and "length (regs c) = 32" and "\<forall>x<32. regs c ! x = R x"
  shows "(op i = IR_DIV \<and> R (nat (src i)) = 0 \<and> dispatch i n c ld = Inl DivisionByZero)
     \<or> (\<not> (op i = IR_DIV \<and> R (nat (src i)) = 0)
         \<and> (\<exists>c'. dispatch i n c ld = Inr (c', dst i, False) \<and> pc c' = pc c
               \<and> length (regs c') = 32 \<and> (\<forall>x<32. regs c' ! x = ir_effect i R x)))"
  using assms(1)
proof (cases rule: arith_cases)
  case 1
  with assms(2) have d: "reg_in_range (dst i)" by (simp add: uses_bad_reg_def)
  then have "nat (dst i) < 32" by (rule reg_in_range_nat)
  with 1 d assms(3,4) show ?thesis
    by (simp add: dispatch_ops check_reg_range ir_effect_def nth_list_update)
next
  case 2
  with assms(2) have d: "reg_in_range (dst i)" and s: "reg_in_range (src i)"
    by (simp_all add: uses_bad_reg_def)
  then have n: "nat (dst i) < 32" "nat (src i) < 32" by (simp_all add: reg_in_range_nat)
  have cr: "check_reg (dst i) = 0" "check_reg (src i) = 0"
    using d s by (simp_all add: check_reg_range)
  from 2 n assms(3,4) show ?thesis
    by (simp add: dispatch_ops exec_alu_ok [OF cr] alu_fst ir_effect_def nth_list_update)
next
  case 3
  with assms(2) have d: "reg_in_range (dst i)" and s: "reg_in_range (src i)"
    by (simp_all add: uses_bad_reg_def)
  then have n: "nat (dst i) < 32" "nat (src i) < 32" by (simp_all add: reg_in_range_nat)
  have cr: "check_reg (dst i) = 0" "check_reg (src i) = 0"
    using d s by (simp_all add: check_reg_range)
  from 3 n assms(3,4) show ?thesis
    by (simp add: dispatch_ops exec_alu_ok [OF cr] alu_fst ir_effect_def nth_list_update)
next
  case 4
  with assms(2) have d: "reg_in_range (dst i)" and s: "reg_in_range (src i)"
    by (simp_all add: uses_bad_reg_def)
  then have n: "nat (dst i) < 32" "nat (src i) < 32" by (simp_all add: reg_in_range_nat)
  have cr: "check_reg (dst i) = 0" "check_reg (src i) = 0"
    using d s by (simp_all add: check_reg_range)
  from 4 n assms(3,4) show ?thesis
    by (simp add: dispatch_ops exec_alu_ok [OF cr] alu_fst ir_effect_def nth_list_update)
next
  case 5
  with assms(2) have d: "reg_in_range (dst i)" and s: "reg_in_range (src i)"
    by (simp_all add: uses_bad_reg_def)
  then have n: "nat (dst i) < 32" "nat (src i) < 32" by (simp_all add: reg_in_range_nat)
  have cr: "check_reg (dst i) = 0" "check_reg (src i) = 0"
    using d s by (simp_all add: check_reg_range)
  from 5 n assms(3,4) show ?thesis
    by (simp add: dispatch_ops exec_alu_ok [OF cr] alu_fst ir_effect_def nth_list_update cr)
qed

lemma regs_before_Suc:
  "j < length p \<Longrightarrow> regs_before p (Suc j) = ir_effect (p ! j) (regs_before p j)"
  by (simp add: regs_before_def take_Suc_conv_app_nth)

lemma run_to_first_bad:
  assumes "\<forall>i\<in>set p. arith_instr i" and "first_bad_reg p < length p"
    and "pc (cpu st) \<le> first_bad_reg p"
    and "step_count st + (first_bad_reg p - pc (cpu st)) < CPU_MAX_STEPS"
    and "length (regs (cpu st)) = 32"
    and "\<forall>x<32. regs (cpu st) ! x = regs_before p (pc (cpu st)) x"
    and "\<forall>j<pc (cpu st). \<not> zero_divisor_at p j"
  shows "(\<exists>st'. cpu_loop p st = Inl (RegisterOutOfRange, st')
           \<and> pc (cpu st') = first_bad_reg p
           \<and> (\<forall>j<first_bad_reg p. \<not> zero_divisor_at p j))
     \<or> (\<exists>st'. cpu_loop p st = Inl (DivisionByZero, st')
           \<and> pc (cpu st') < first_bad_reg p
           \<and> zero_divisor_at p (pc (cpu st'))
           \<and> (\<forall>j<pc (cpu st'). \<not> zero_divisor_at p j))"
  using assms(3-7)
proof (induction "first_bad_reg p - pc (cpu st)" arbitrary: st)
  case 0
  then have at: "pc (cpu st) = first_bad_reg p" by simp
  have inside: "pc (cpu st) < length p" using at assms(2) by simp
  have steps: "step_count st < CPU_MAX_STEPS" using "0.prems"(2) by simp
  have "arith_instr (p ! pc (cpu st))" using assms(1) inside by simp
  moreover have "uses_bad_reg (p ! pc (cpu st))"
    unfolding at by (rule first_bad_uses [OF assms(2)])
  ultimately have "dispatch (p ! pc (cpu st)) (length p) (cpu st) (last_dst st) =
      Inl RegisterOutOfRange"
    by (rule dispatch_arith_bad)
  from cpu_loop_fail [OF inside steps this] at "0.prems"(5) show ?case by simp
next
  case (Suc k)
  then have before: "pc (cpu st) < first_bad_reg p" by simp
  have inside: "pc (cpu st) < length p" using before assms(2) by simp
  have steps: "step_count st < CPU_MAX_STEPS" using Suc.prems(2) by simp
  have ar: "arith_instr (p ! pc (cpu st))" using assms(1) inside by simp
  have good: "\<not> uses_bad_reg (p ! pc (cpu st))" by (rule before_first_bad [OF before])
  from dispatch_arith_step [OF ar good Suc.prems(3,4), of "length p" "last_dst st"]
  show ?case
  proof
    assume z: "op (p ! pc (cpu st)) = IR_DIV
        \<and> regs_before p (pc (cpu st)) (nat (src (p ! pc (cpu st)))) = 0
        \<and> dispatch (p ! pc (cpu st)) (length p) (cpu st) (last_dst st) = Inl DivisionByZero"
    then have d: "dispatch (p ! pc (cpu st)) (length p) (cpu st) (last_dst st) = Inl DivisionByZero"
      and zd: "zero_divisor_at p (pc (cpu st))"
      by (simp_all add: zero_divisor_at_def)
    from cpu_loop_fail [OF inside steps d] before zd Suc.prems(5) show ?case by simp
  next
    assume nz: "\<not> (op (p ! pc (cpu st)) = IR_DIV
          \<and> regs_before p (pc (cpu st)) (nat (src (p ! pc (cpu st)))) = 0)
        \<and> (\<exists>c'. dispatch (p ! pc (cpu st)) (length p) (cpu st) (last_dst st) =
                 Inr (c', dst (p ! pc (cpu st)), False) \<and> pc c' = pc (cpu st)
               \<and> length (regs c') = 32
               \<and> (\<forall>x<32. regs c' ! x = ir_effect (p ! pc (cpu st)) (regs_before p (pc (cpu st))) x))"
    then obtain c' where d: "dispatch (p ! pc (cpu st)) (length p) (cpu st) (last_dst st) =
        Inr (c', dst (p ! pc (cpu st)), False)" and pc': "pc c' = pc (cpu st)"
      and len': "length (regs c') = 32"
      and regs': "\<forall>x<32. regs c' ! x = ir_effect (p ! pc (cpu st)) (regs_before p (pc (cpu st))) x"
      by blast
    from nz have nzd: "\<not> zero_divisor_at p (pc (cpu st))"
      by (simp add: zero_divisor_at_def)
    define st1 where "st1 = \<lparr>cpu = c'\<lparr>pc := pc c' + 1\<rparr>, last_dst = dst (p ! pc (cpu st)),
        step_count = step_count st + 1\<rparr>"
    have run: "cpu_loop p st = cpu_loop p st1"
      using cpu_loop_step [OF inside steps d] by (simp add: st1_def)
    have pc1: "pc (cpu st1) = Suc (pc (cpu st))" by (simp add: st1_def pc')
    have a: "k = first_bad_reg p - pc (cpu st1)" "pc (cpu st1) \<le> first_bad_reg p"
      "step_count st1 + (first_bad_reg p - pc (cpu st1)) < CPU_MAX_STEPS"
      using Suc.hyps(2) Suc.prems(2) before by (simp_all add: st1_def pc')
    have b: "length (regs (cpu st1)) = 32" by (simp add: st1_def len')
    have c: "\<forall>x<32. regs (cpu st1) ! x = regs_before p (pc (cpu st1)) x"
      unfolding pc1 regs_before_Suc [OF inside] using regs' by (simp add: st1_def)
    have e: "\<forall>j<pc (cpu st1). \<not> zero_divisor_at p j"
      unfolding pc1 using Suc.prems(5) nzd by (simp add: less_Suc_eq)
    from Suc.hyps(1) [OF a b c e] show ?case unfolding run .
  qed
qed

lemma arith_instr_simps:
  "arith_instr (load_const r v)" "arith_instr (alu_instr (ast_op_to_ir bop) d s)"
  by (cases bop; simp add: arith_instr_def load_const_def alu_instr_def)+

lemma uses_bad_reg_simps:
  "uses_bad_reg (load_const r v) \<longleftrightarrow> \<not> (0 \<le> r \<and> r < 32)"
  "uses_bad_reg (alu_instr (ast_op_to_ir bop) d s) \<longleftrightarrow> \<not> (0 \<le> d \<and> d < 32 \<and> 0 \<le> s \<and> s < 32)"
  by (cases bop; auto simp: uses_bad_reg_def load_const_def alu_instr_def reg_in_range_def)+

lemma regs_before_0: "regs_before p 0 = (\<lambda>_. 0)"
  by (simp add: regs_before_def)

text \<open>The run of an arithmetic program from the initial state of \<open>cpu_execute\<close>.\<close>

lemma run_from_init:
  assumes "\<forall>i\<in>set p. arith_instr i" and "first_bad_reg p < length p"
    and "first_bad_reg p < CPU_MAX_STEPS"
  shows "(\<exists>st'. cpu_execute p m = Inl (RegisterOutOfRange, st')
           \<and> pc (cpu st') = first_bad_reg p
           \<and> (\<forall>j<first_bad_reg p. \<not> zero_divisor_at p j))
     \<or> (\<exists>st'. cpu_execute p m = Inl (DivisionByZero, st')
           \<and> pc (cpu st') < first_bad_reg p
           \<and> zero_divisor_at p (pc (cpu st'))
           \<and> (\<forall>j<pc (cpu st'). \<not> zero_divisor_at p j))"
proof -
  have ne: "length p \<noteq> 0" using assms(2) by auto
  have st0: "pc (cpu (cpu_init m)) \<le> first_bad_reg p"
    "step_count (cpu_init m) + (first_bad_reg p - pc (cpu (cpu_init m))) < CPU_MAX_STEPS"
    "length (regs (cpu (cpu_init m))) = 32"
    "\<forall>x<32. regs (cpu (cpu_init m)) ! x = regs_before p (pc (cpu (cpu_init m))) x"
    "\<forall>j<pc (cpu (cpu_init m)). \<not> zero_divisor_at p j"
    using assms(3) by (simp_all add: cpu_init_def CPU_MAX_REGS_def regs_before_0)
  from run_to_first_bad [OF assms(1,2) st0] ne show ?thesis
    by (simp add: cpu_execute_def)
qed

lemma lower_arith: "\<forall>i\<in>set (lower t r). arith_instr i"
  by (induction t arbitrary: r) (auto simp: arith_instr_simps)

lemma lower_good:
  "0 \<le> r \<Longrightarrow> r + int (leaves t) \<le> 32 \<Longrightarrow> \<forall>i\<in>set (lower t r). \<not> uses_bad_reg i"
proof (induction t arbitrary: r)
  case (NODE_NUMBER val)
  then show ?case by (simp add: uses_bad_reg_simps)
next
  case (NODE_BINARY_OP bop left right)
  have lp: "0 < leaves left" "0 < leaves right" by (rule leaves_pos)+
  have "\<forall>i\<in>set (lower left r). \<not> uses_bad_reg i"
    using NODE_BINARY_OP.prems by (intro NODE_BINARY_OP.IH(1)) simp_all
  moreover have "\<forall>i\<in>set (lower right (r + int (leaves left))). \<not> uses_bad_reg i"
    using NODE_BINARY_OP.prems by (intro NODE_BINARY_OP.IH(2)) simp_all
  moreover have "\<not> uses_bad_reg (alu_instr (ast_op_to_ir bop) r (r + int (leaves left)))"
    using NODE_BINARY_OP.prems lp by (simp add: uses_bad_reg_simps)
  ultimately show ?case by auto
qed

lemma first_bad_append_bad:
  "first_bad_reg xs < length xs \<Longrightarrow> first_bad_reg (xs @ ys) = first_bad_reg xs"
proof -
  assume a: "first_bad_reg xs < length xs"
  have "xs ! first_bad_reg xs \<in> set xs" using a by simp
  moreover have "\<not> \<not> uses_bad_reg (xs ! first_bad_reg xs)"
    using first_bad_uses [OF a] by simp
  ultimately have "takeWhile (\<lambda>i. \<not> uses_bad_reg i) (xs @ ys) = takeWhile (\<lambda>i. \<not> uses_bad_reg i) xs"
    by (rule takeWhile_append1)
  then show ?thesis by (simp add: first_bad_reg_def)
qed

lemma first_bad_append_good:
  "\<forall>i\<in>set xs. \<not> uses_bad_reg i \<Longrightarrow> first_bad_reg (xs @ ys) = length xs + first_bad_reg ys"
  by (simp add: first_bad_reg_def takeWhile_append2)

lemma lower_first_bad:
  "0 \<le> r \<Longrightarrow> r \<le> 32 \<Longrightarrow> 32 < r + int (leaves t) \<Longrightarrow>
   first_bad_reg (lower t r) < length (lower t r) \<and> first_bad_reg (lower t r) \<le> 2 * nat (32 - r)"
proof (induction t arbitrary: r)
  case (NODE_NUMBER val)
  then have "r = 32" by simp
  then show ?case by (simp add: first_bad_reg_def uses_bad_reg_simps)
next
  case (NODE_BINARY_OP bop left right)
  define r' where "r' = r + int (leaves left)"
  define opi where "opi = alu_instr (ast_op_to_ir bop) r r'"
  have code: "lower (NODE_BINARY_OP bop left right) r = lower left r @ (lower right r' @ [opi])"
    by (simp add: r'_def opi_def)
  have lp: "0 < leaves left" by (rule leaves_pos)
  show ?case
  proof (cases "32 < r + int (leaves left)")
    case True
    from NODE_BINARY_OP.IH(1) [OF NODE_BINARY_OP.prems(1,2) True]
    have l: "first_bad_reg (lower left r) < length (lower left r)"
      and b: "first_bad_reg (lower left r) \<le> 2 * nat (32 - r)" by simp_all
    show ?thesis
      unfolding code first_bad_append_bad [OF l] using l b by simp
  next
    case False
    then have le: "r + int (leaves left) \<le> 32" by simp
    have good: "\<forall>i\<in>set (lower left r). \<not> uses_bad_reg i"
      by (rule lower_good [OF NODE_BINARY_OP.prems(1) le])
    have r': "0 \<le> r'" "r' \<le> 32" "32 < r' + int (leaves right)"
      using NODE_BINARY_OP.prems le by (simp_all add: r'_def)
    from NODE_BINARY_OP.IH(2) [OF r']
    have l: "first_bad_reg (lower right r') < length (lower right r')"
      and b: "first_bad_reg (lower right r') \<le> 2 * nat (32 - r')" by simp_all
    have "length (lower left r) + 2 * nat (32 - r') \<le> 2 * nat (32 - r)"
      using lp le NODE_BINARY_OP.prems(1) by (simp add: length_lower r'_def)
    then show ?thesis
      unfolding code first_bad_append_good [OF good] first_bad_append_bad [OF l]
      using l b by simp
  qed
qed

lemma lower_has_load:
  "r \<le> k \<Longrightarrow> k < r + int (leaves t) \<Longrightarrow> \<exists>val. load_const k val \<in> set (lower t r)"
proof (induction t arbitrary: r)
  case (NODE_NUMBER val)
  then have "k = r" by simp
  then show ?case by auto
next
  case (NODE_BINARY_OP bop left right)
  show ?case
  proof (cases "k < r + int (leaves left)")
    case True
    from NODE_BINARY_OP.IH(1) [OF NODE_BINARY_OP.prems(1) True] show ?thesis by auto
  next
    case False
    then have "r + int (leaves left) \<le> k" "k < (r + int (leaves left)) + int (leaves right)"
      using NODE_BINARY_OP.prems(2) by simp_all
    from NODE_BINARY_OP.IH(2) [OF this] show ?thesis by auto
  qed
qed


text \<open>
  C10, as the code has it. \<open>codegen_expr\<close> places no bound on its register counter:
  for every tree with more than 32 \<open>Number\<close> leaves it returns, and its program holds an
  instruction that names a register index of 32 or more. \<open>cpu_execute\<close> on this program
  fails. When no \<open>Div\<close> instruction before the first instruction that uses a register
  index outside \<open>[0, 32)\<close> finds the divisor 0 in its source register, the run fails
  with \<open>RegisterOutOfRange\<close> at that first instruction. When one does, the run fails
  with \<open>DivisionByZero\<close> at the first \<open>Div\<close> instruction that finds the divisor 0.
\<close>

theorem register_overflow_at_run_time:
  assumes "32 < leaves t"
  shows "\<exists>cg. main_codegen t = (0, cg)
     \<and> (\<exists>i\<in>set (prog cg). 32 \<le> dst i)
     \<and> first_bad_reg (prog cg) < length (prog cg)
     \<and> uses_bad_reg (prog cg ! first_bad_reg (prog cg))
     \<and> (\<forall>j<first_bad_reg (prog cg). \<not> uses_bad_reg (prog cg ! j))
     \<and> ((\<forall>j<first_bad_reg (prog cg). \<not> zero_divisor_at (prog cg) j) \<longrightarrow>
          (\<exists>st. cpu_execute (prog cg) m = Inl (RegisterOutOfRange, st)
                \<and> pc (cpu st) = first_bad_reg (prog cg)))
     \<and> (\<forall>j<first_bad_reg (prog cg).
           zero_divisor_at (prog cg) j \<and> (\<forall>j'<j. \<not> zero_divisor_at (prog cg) j') \<longrightarrow>
             (\<exists>st. cpu_execute (prog cg) m = Inl (DivisionByZero, st) \<and> pc (cpu st) = j))"
proof -
  let ?p = "lower t 0"
  let ?k = "first_bad_reg ?p"
  have r: "(0::int) \<le> 0" "(0::int) \<le> 32" "32 < 0 + int (leaves t)"
    using assms by simp_all
  from lower_first_bad [OF r]
  have fb: "?k < length ?p" and small: "?k \<le> 64" by simp_all
  from lower_has_load [of 0 32 t] assms obtain val where "load_const 32 val \<in> set ?p"
    by auto
  then have named: "\<exists>i\<in>set ?p. 32 \<le> dst i"
    by (auto simp: load_const_def intro!: bexI [of _ "load_const 32 val"])
  have steps: "?k < CPU_MAX_STEPS"
    using small by (simp add: CPU_MAX_STEPS_def)
  note run = run_from_init [OF lower_arith fb steps, of m]
  have first: "uses_bad_reg (?p ! ?k)" "\<forall>j<?k. \<not> uses_bad_reg (?p ! j)"
    using first_bad_uses [OF fb] before_first_bad [of _ ?p] by simp_all
  have no_zero: "\<exists>st. cpu_execute ?p m = Inl (RegisterOutOfRange, st) \<and> pc (cpu st) = ?k"
    if "\<forall>j<?k. \<not> zero_divisor_at ?p j"
    using run that by auto
  have zero: "\<exists>st. cpu_execute ?p m = Inl (DivisionByZero, st) \<and> pc (cpu st) = j"
    if j: "j < ?k" and z: "zero_divisor_at ?p j" and least: "\<forall>j'<j. \<not> zero_divisor_at ?p j'"
    for j
  proof -
    from run j z obtain st' where st': "cpu_execute ?p m = Inl (DivisionByZero, st')"
      and z': "zero_divisor_at ?p (pc (cpu st'))"
      and least': "\<forall>j'<pc (cpu st'). \<not> zero_divisor_at ?p j'"
      by auto
    have "pc (cpu st') = j"
    proof (rule ccontr)
      assume "pc (cpu st') \<noteq> j"
      then consider "pc (cpu st') < j" | "j < pc (cpu st')" by arith
      then show False
      proof cases
        case 1 with least z' show False by simp
      next
        case 2 with least' z show False by simp
      qed
    qed
    with st' show ?thesis by blast
  qed
  show ?thesis
    using named fb first no_zero zero by (simp add: main_codegen_lower)
qed

section \<open>Runs of the example trees\<close>

lemma leaves_ones: "leaves (ones n) = n + 1"
  by (induction n) simp_all

lemma eval_ones: "eval (ones n) = Inr (int n + 1)"
  by (induction n) simp_all

lemma lower_ones_no_div: "\<forall>i\<in>set (lower (ones n) r). op i \<noteq> IR_DIV"
  by (induction n arbitrary: r) (simp_all add: load_const_def alu_instr_def)

lemma no_div_no_zero_divisor:
  assumes "\<forall>i\<in>set p. op i \<noteq> IR_DIV" and "k \<le> length p"
  shows "\<forall>j<k. \<not> zero_divisor_at p j"
proof (intro allI impI)
  fix j
  assume "j < k"
  with assms(2) have "p ! j \<in> set p" by simp
  with assms(1) show "\<not> zero_divisor_at p j" by (simp add: zero_divisor_at_def)
qed

lemma ones_overflow:
  assumes "32 \<le> n"
  shows "cpu_status (cpu_execute (lower (ones n) 0) m) = Some RegisterOutOfRange"
proof -
  let ?p = "lower (ones n) 0"
  have r: "(0::int) \<le> 0" "(0::int) \<le> 32" "32 < 0 + int (leaves (ones n))"
    using assms by (simp_all add: leaves_ones)
  from lower_first_bad [OF r]
  have fb: "first_bad_reg ?p < length ?p" and small: "first_bad_reg ?p \<le> 64" by simp_all
  have steps: "first_bad_reg ?p < CPU_MAX_STEPS"
    using small by (simp add: CPU_MAX_STEPS_def)
  have "\<forall>j<length ?p. \<not> zero_divisor_at ?p j"
    by (rule no_div_no_zero_divisor [OF lower_ones_no_div order_refl])
  with run_from_init [OF lower_arith fb steps, of m] fb show ?thesis
    by (auto simp: cpu_status_def)
qed

lemma wide_divisor_run:
  "cpu_status (cpu_execute (lower wide_divisor_tree 0 @ rest) m) = Some DivisionByZero"
  by (simp add: wide_divisor_tree_def cpu_execute_def cpu_status_def run_simps cpu_loop_run
      CPU_MAX_STEPS_def dispatch_ops load_const_def alu_instr_def check_reg_def CPU_MAX_REGS_def)

lemma negative_quotient_run:
  "cpu_result (cpu_execute (lower negative_quotient_tree 0) m) = Inr 0"
  by (simp add: negative_quotient_tree_def cpu_execute_def cpu_result_def final_reg_def run_simps
      cpu_loop_run cpu_loop_exit
      CPU_MAX_STEPS_def dispatch_ops load_const_def alu_instr_def check_reg_def CPU_MAX_REGS_def
      exec_alu_ok alu_fst)

text \<open>
  The sum of 33 ones has no division: its program names the register 32, and the run
  fails with \<open>RegisterOutOfRange\<close>. In \<open>1 / 4294967296 + (1 + (1 + ...))\<close> with 34
  leaves the \<open>Div\<close> at the index 2 is the first one to find the divisor 0, before any
  register index outside \<open>[0, 32)\<close> is used, and the run fails there with
  \<open>DivisionByZero\<close>.
\<close>

theorem register_overflow_at_run_time_witness:
  "32 < leaves (ones 32)
   \<and> (\<exists>i\<in>set (prog (snd (main_codegen (ones 32)))). 32 \<le> dst i)
   \<and> cpu_status (cpu_execute (prog (snd (main_codegen (ones 32)))) None)
       = Some RegisterOutOfRange
   \<and> 32 < leaves wide_divisor_then_ones
   \<and> 2 < first_bad_reg (prog (snd (main_codegen wide_divisor_then_ones)))
   \<and> zero_divisor_at (prog (snd (main_codegen wide_divisor_then_ones))) 2
   \<and> (\<exists>st. cpu_execute (prog (snd (main_codegen wide_divisor_then_ones))) None
              = Inl (DivisionByZero, st) \<and> pc (cpu st) = 2)"
proof -
  let ?p = "lower (ones 32) 0"
  let ?q = "lower wide_divisor_then_ones 0"
  have l: "32 < leaves (ones 32)" by (simp add: leaves_ones)
  from register_overflow_at_run_time [OF l, of None]
  have named: "\<exists>i\<in>set ?p. 32 \<le> dst i"
    and fb: "first_bad_reg ?p < length ?p"
    and run: "(\<forall>j<first_bad_reg ?p. \<not> zero_divisor_at ?p j) \<longrightarrow>
          (\<exists>st. cpu_execute ?p None = Inl (RegisterOutOfRange, st)
                \<and> pc (cpu st) = first_bad_reg ?p)"
    by (simp_all add: main_codegen_lower)
  have "\<forall>j<first_bad_reg ?p. \<not> zero_divisor_at ?p j"
    using fb by (intro no_div_no_zero_divisor [OF lower_ones_no_div]) simp
  with run have ones: "cpu_status (cpu_execute ?p None) = Some RegisterOutOfRange"
    by (auto simp: cpu_status_def)
  have l2: "32 < leaves wide_divisor_then_ones"
    by (simp add: wide_divisor_then_ones_def wide_divisor_tree_def leaves_ones)
  have q: "?q = load_const 0 1 # load_const 1 4294967296 # alu_instr IR_DIV 0 1
      # (lower (ones 31) 2 @ [alu_instr IR_ADD 0 2])"
    by (simp add: wide_divisor_then_ones_def wide_divisor_tree_def)
  have k2: "2 < first_bad_reg ?q"
    unfolding q
    by (simp add: first_bad_reg_def uses_bad_reg_def load_const_def alu_instr_def reg_in_range_def)
  have z2: "zero_divisor_at ?q 2"
    unfolding q
    by (simp add: zero_divisor_at_def regs_before_def ir_effect_def load_const_def alu_instr_def)
  have least: "\<forall>j'<2. \<not> zero_divisor_at ?q j'"
    unfolding q
    by (auto simp: zero_divisor_at_def load_const_def less_Suc_eq numeral_2_eq_2)
  from register_overflow_at_run_time [OF l2, of None] k2 z2 least
  have "\<exists>st. cpu_execute ?q None = Inl (DivisionByZero, st) \<and> pc (cpu st) = 2"
    by (simp add: main_codegen_lower)
  with l named ones l2 k2 z2 show ?thesis
    by (simp add: main_codegen_lower)
qed

text \<open>
  The claim C10 as it is stated fails on the tree \<open>1 / 4294967296 + (1 + (1 + ...))\<close>
  with 34 leaves: the constant \<open>4294967296\<close> is loaded as the word 0, and the run fails
  at the third instruction with \<open>DivisionByZero\<close>, not with \<open>RegisterOutOfRange\<close>.
\<close>

theorem division_by_zero_before_register_check:
  "32 < leaves wide_divisor_then_ones
   \<and> cpu_status (cpu_execute (prog (snd (main_codegen wide_divisor_then_ones))) None)
       = Some DivisionByZero
   \<and> cpu_status (cpu_execute (prog (snd (main_codegen wide_divisor_then_ones))) None)
       \<noteq> Some RegisterOutOfRange"
proof -
  have "lower wide_divisor_then_ones 0 =
      lower wide_divisor_tree 0 @ (lower (ones 31) 2 @ [alu_instr IR_ADD 0 2])"
    by (simp add: wide_divisor_then_ones_def wide_divisor_tree_def)
  then have "cpu_status (cpu_execute (lower wide_divisor_then_ones 0) None) = Some DivisionByZero"
    by (simp only: wide_divisor_run)
  moreover have "leaves wide_divisor_then_ones = 34"
    by (simp add: wide_divisor_then_ones_def wide_divisor_tree_def leaves_ones)
  ultimately show ?thesis
    by (simp add: main_codegen_lower)
qed

text \<open>
  The claim C1 as it is stated fails on three trees whose reference values fit in 32
  bits. For \<open>(0 - 6) / (0 - 2)\<close> the evaluator gives 3 and the CPU, dividing the unsigned
  words, gives 0. For \<open>1 / 4294967296\<close> the evaluator gives 0 and the CPU, which loads
  the divisor as the word 0, fails with \<open>DivisionByZero\<close>. For the sum of 33 ones the
  evaluator gives 33 and the CPU fails with \<open>RegisterOutOfRange\<close>.
\<close>

theorem compiled_disagrees_with_eval:
  "eval negative_quotient_tree = Inr 3
   \<and> leaves negative_quotient_tree = 4
   \<and> cpu_result (cpu_execute (prog (snd (main_codegen negative_quotient_tree))) None) = Inr 0
   \<and> (word_of_int 3 :: word_t) \<noteq> 0
   \<and> eval wide_divisor_tree = Inr 0
   \<and> leaves wide_divisor_tree = 2
   \<and> cpu_result (cpu_execute (prog (snd (main_codegen wide_divisor_tree))) None)
       = Inl DivisionByZero
   \<and> eval (ones 32) = Inr 33
   \<and> cpu_result (cpu_execute (prog (snd (main_codegen (ones 32)))) None)
       = Inl RegisterOutOfRange"
proof -
  have status_result: "cpu_status r = Some e \<Longrightarrow> cpu_result r = Inl e" for r e
    by (auto simp: cpu_status_def cpu_result_def split: sum.splits)
  have "cpu_status (cpu_execute (lower wide_divisor_tree 0 @ []) None) = Some DivisionByZero"
    by (rule wide_divisor_run)
  then have w: "cpu_result (cpu_execute (lower wide_divisor_tree 0) None) = Inl DivisionByZero"
    by (simp add: status_result)
  have o: "cpu_result (cpu_execute (lower (ones 32) 0) None) = Inl RegisterOutOfRange"
    by (rule status_result) (simp add: ones_overflow)
  have e1: "eval negative_quotient_tree = Inr 3" "leaves negative_quotient_tree = 4"
    by (simp_all add: negative_quotient_tree_def)
  have e2: "eval wide_divisor_tree = Inr 0" "leaves wide_divisor_tree = 2"
    by (simp_all add: wide_divisor_tree_def signed_divide_int_def)
  show ?thesis
    using w o e1 e2 by (simp add: main_codegen_lower negative_quotient_run eval_ones)
qed

end
